theory Spec2Isabelle
  imports Complex_Main "HOL-Library.AList"
begin

section \<open>Errors and the pseudo-random sources\<close>

text \<open>
  The module \<^verbatim>\<open>rl_traffic_control.py\<close> has no \<^verbatim>\<open>raise\<close> of its own; the exceptions that can
  leave its functions come from the built-in and library calls it makes.
\<close>

datatype error = ValueError | IndexError | TypeError

text \<open>
  Both \<^verbatim>\<open>np.random\<close> and \<^verbatim>\<open>random\<close> are global generators. A generator is modelled by
  the infinite sequence of raw draws it is going to produce together with the position
  of the next draw; every library call maps one raw draw into the range the library
  documents, so every outcome the library can produce is produced by some sequence.
\<close>

type_synonym rng = "(nat \<Rightarrow> nat) \<times> nat"

definition draw :: "rng \<Rightarrow> nat \<times> rng" where
  "draw g = (fst g (snd g), (fst g, Suc (snd g)))"

definition randint :: "int \<Rightarrow> int \<Rightarrow> rng \<Rightarrow> int \<times> rng" where
  \<comment> \<open>\<^verbatim>\<open>np.random.randint(lo, hi)\<close>: an integer of \<open>[lo, hi)\<close>; the source only calls it with \<open>lo < hi\<close>.\<close>
  "randint lo hi g = (case draw g of (r, g') \<Rightarrow> (lo + int r mod (hi - lo), g'))"

definition random_float :: "rng \<Rightarrow> real \<times> rng" where
  \<comment> \<open>\<^verbatim>\<open>np.random.random()\<close> and \<^verbatim>\<open>np.random.rand()\<close>: a multiple of \<open>2\<^sup>-\<^sup>5\<^sup>3\<close> in \<open>[0, 1)\<close>.\<close>
  "random_float g = (case draw g of (r, g') \<Rightarrow> (real (r mod 2 ^ 53) / 2 ^ 53, g'))"

definition randrange :: "int \<Rightarrow> rng \<Rightarrow> error + (int \<times> rng)" where
  \<comment> \<open>\<^verbatim>\<open>random.randrange(n)\<close>: an integer of \<open>[0, n)\<close>, \<^verbatim>\<open>ValueError\<close> on an empty range.\<close>
  "randrange n g =
     (if n \<le> 0 then Inl ValueError
      else case draw g of (r, g') \<Rightarrow> Inr (int r mod n, g'))"

fun sample_picks :: "'a list \<Rightarrow> nat \<Rightarrow> rng \<Rightarrow> 'a list \<times> rng" where
  "sample_picks xs 0 g = ([], g)"
| "sample_picks [] (Suc k) g = ([], g)"
| "sample_picks (x # xs) (Suc k) g =
     (case draw g of (r, g1) \<Rightarrow>
        let j = r mod length (x # xs) in
        case sample_picks (take j (x # xs) @ drop (Suc j) (x # xs)) k g1 of
          (ys, g2) \<Rightarrow> ((x # xs) ! j # ys, g2))"

definition random_sample :: "'a list \<Rightarrow> int \<Rightarrow> rng \<Rightarrow> error + ('a list \<times> rng)" where
  \<comment> \<open>\<^verbatim>\<open>random.sample(population, k)\<close>: \<open>k\<close> positions without replacement, in selection order.\<close>
  "random_sample xs k g =
     (if k < 0 \<or> int (length xs) < k then Inl ValueError
      else Inr (sample_picks xs (nat k) g))"

section \<open>The replay memory: \<^verbatim>\<open>collections.deque(maxlen=...)\<close>\<close>

record 'a deque =
  maxlen :: nat
  items :: "'a list"

definition deque_append :: "'a deque \<Rightarrow> 'a \<Rightarrow> 'a deque" where
  \<comment> \<open>\<^verbatim>\<open>deque.append\<close>: the item goes to the right end, then a deque longer than
      \<open>maxlen\<close> drops its leftmost item.\<close>
  "deque_append d x =
     (let ys = items d @ [x]
      in d\<lparr>items := (if maxlen d < length ys then tl ys else ys)\<rparr>)"

section \<open>\<^verbatim>\<open>TrafficRLAgent\<close>\<close>

text \<open>
  A transition is the tuple \<^verbatim>\<open>(state, action, reward, next_state, done)\<close> that
  \<^verbatim>\<open>remember\<close> stores. An observation is the array fed to a network, as the list of
  its entries.
\<close>

type_synonym observation = "real list"
type_synonym transition = "observation \<times> int \<times> real \<times> observation \<times> bool"

text \<open>
  The two Keras models are external: a network is a value of an arbitrary type \<open>'net\<close>,
  and the functions \<open>predict\<close> (the row \<^verbatim>\<open>model.predict(state)[0]\<close>) and \<open>fit\<close> (the
  network after \<^verbatim>\<open>model.fit(state, target_f, epochs=1)\<close>) are parameters of
  every operation that calls them.
\<close>

text \<open>
  The constructor gets \<^verbatim>\<open>state_size\<close> as a tuple (its docstring) or as an int (the call in
  \<^verbatim>\<open>train_agent\<close>) and stores it as it is.
\<close>

datatype size_arg = IntSize int | TupleSize "int list"

record 'net agent =
  state_size :: size_arg
  action_size :: int
  gamma :: real
  epsilon :: real
  epsilon_min :: real
  epsilon_decay :: real
  learning_rate :: real
  memory :: "transition deque"
  primary_network :: 'net
  target_network :: 'net

definition update_target_network :: "'net agent \<Rightarrow> 'net agent" where
  "update_target_network ag = ag\<lparr>target_network := primary_network ag\<rparr>"

definition build_model :: "size_arg \<Rightarrow> error + 'net \<Rightarrow> error + 'net" where
  \<comment> \<open>\<^verbatim>\<open>_build_model\<close>: \<^verbatim>\<open>len(self.state_size)\<close> raises \<^verbatim>\<open>TypeError\<close> on an int. The layers
      and the compilation that follow are Keras's: \<open>built\<close> is their outcome, the compiled
      network or the exception Keras raises.\<close>
  "build_model ssize built = (case ssize of IntSize n \<Rightarrow> Inl TypeError | TupleSize dims \<Rightarrow> built)"

definition agent_init ::
  "size_arg \<Rightarrow> int \<Rightarrow> error + 'net \<Rightarrow> error + 'net \<Rightarrow> error + 'net agent" where
  \<comment> \<open>\<^verbatim>\<open>__init__\<close>; \<open>built1\<close> and \<open>built2\<close> are the outcomes of Keras in the two calls of
      \<^verbatim>\<open>_build_model\<close>.\<close>
  "agent_init ssize asize built1 built2 =
     (case build_model ssize built1 of
        Inl e \<Rightarrow> Inl e
      | Inr primary \<Rightarrow>
          (case build_model ssize built2 of
             Inl e \<Rightarrow> Inl e
           | Inr target \<Rightarrow>
               Inr (update_target_network
                      \<lparr>state_size = ssize, action_size = asize,
                       gamma = 95 / 100, epsilon = 1, epsilon_min = 1 / 100,
                       epsilon_decay = 995 / 1000, learning_rate = 1 / 1000,
                       memory = \<lparr>maxlen = 2000, items = []\<rparr>,
                       primary_network = primary, target_network = target\<rparr>)))"

definition remember :: "'net agent \<Rightarrow> transition \<Rightarrow> 'net agent" where
  "remember ag t = ag\<lparr>memory := deque_append (memory ag) t\<rparr>"

fun argmax_scan :: "nat \<Rightarrow> real \<Rightarrow> nat \<Rightarrow> real list \<Rightarrow> nat" where
  "argmax_scan best bv i [] = best"
| "argmax_scan best bv i (x # xs) =
     (if bv < x then argmax_scan i x (Suc i) xs else argmax_scan best bv (Suc i) xs)"

definition np_argmax :: "real list \<Rightarrow> error + nat" where
  \<comment> \<open>\<^verbatim>\<open>np.argmax\<close>: the first position of the maximum, \<^verbatim>\<open>ValueError\<close> on an empty row.\<close>
  "np_argmax xs = (case xs of [] \<Rightarrow> Inl ValueError | x # rest \<Rightarrow> Inr (argmax_scan 0 x 1 rest))"

definition act ::
  "('net \<Rightarrow> observation \<Rightarrow> real list) \<Rightarrow> 'net agent \<Rightarrow> observation \<Rightarrow> bool \<Rightarrow> rng \<Rightarrow> rng
    \<Rightarrow> error + (int \<times> rng \<times> rng)" where
  \<comment> \<open>\<open>np_g\<close> is the generator of \<^verbatim>\<open>np.random\<close>, \<open>py_g\<close> the one of \<^verbatim>\<open>random\<close>. The
      conjunction short-circuits: without \<open>training\<close> nothing is drawn.\<close>
  "act predict ag s training np_g py_g =
     (let greedy = (\<lambda>g. case np_argmax (predict (primary_network ag) s) of
                          Inl e \<Rightarrow> Inl e
                        | Inr a \<Rightarrow> Inr (int a, g, py_g))
      in if training then
           (case random_float np_g of (u, np_g') \<Rightarrow>
              if u \<le> epsilon ag then
                (case randrange (action_size ag) py_g of
                   Inl e \<Rightarrow> Inl e
                 | Inr (a, py_g') \<Rightarrow> Inr (a, np_g', py_g'))
              else greedy np_g')
         else greedy np_g)"

definition py_index :: "'a list \<Rightarrow> int \<Rightarrow> error + nat" where
  \<comment> \<open>The position an index addresses; negative indices count from the end.\<close>
  "py_index xs i =
     (if 0 \<le> i \<and> i < int (length xs) then Inr (nat i)
      else if i < 0 \<and> - int (length xs) \<le> i then Inr (nat (int (length xs) + i))
      else Inl IndexError)"

fun td_target ::
  "('net \<Rightarrow> observation \<Rightarrow> real list) \<Rightarrow> 'net agent \<Rightarrow> transition \<Rightarrow> error + real" where
  "td_target predict ag (s, a, r, s', d) =
     (if d then Inr r
      else case np_argmax (predict (primary_network ag) s') of
             Inl e \<Rightarrow> Inl e
           | Inr next_action \<Rightarrow>
               let target_q_values = predict (target_network ag) s'
               in if next_action < length target_q_values
                  then Inr (r + gamma ag * target_q_values ! next_action)
                  else Inl IndexError)"

fun target_vector ::
  "('net \<Rightarrow> observation \<Rightarrow> real list) \<Rightarrow> 'net agent \<Rightarrow> transition \<Rightarrow> error + real list" where
  "target_vector predict ag (s, a, r, s', d) =
     (case td_target predict ag (s, a, r, s', d) of
        Inl e \<Rightarrow> Inl e
      | Inr target \<Rightarrow>
          let target_f = predict (primary_network ag) s
          in case py_index target_f a of
               Inl e \<Rightarrow> Inl e
             | Inr j \<Rightarrow> Inr (list_update target_f j target))"

fun replay_sample ::
  "('net \<Rightarrow> observation \<Rightarrow> real list) \<Rightarrow> ('net \<Rightarrow> observation \<Rightarrow> real list \<Rightarrow> 'net)
    \<Rightarrow> 'net agent \<Rightarrow> transition \<Rightarrow> error + 'net agent" where
  "replay_sample predict fit ag (s, a, r, s', d) =
     (case target_vector predict ag (s, a, r, s', d) of
        Inl e \<Rightarrow> Inl e
      | Inr target_f \<Rightarrow> Inr (ag\<lparr>primary_network := fit (primary_network ag) s target_f\<rparr>))"

fun replay_batch ::
  "('net \<Rightarrow> observation \<Rightarrow> real list) \<Rightarrow> ('net \<Rightarrow> observation \<Rightarrow> real list \<Rightarrow> 'net)
    \<Rightarrow> 'net agent \<Rightarrow> transition list \<Rightarrow> error + 'net agent" where
  "replay_batch predict fit ag [] = Inr ag"
| "replay_batch predict fit ag (t # ts) =
     (case replay_sample predict fit ag t of
        Inl e \<Rightarrow> Inl e
      | Inr ag' \<Rightarrow> replay_batch predict fit ag' ts)"

definition decay_epsilon :: "'net agent \<Rightarrow> 'net agent" where
  \<comment> \<open>The last statement of \<^verbatim>\<open>replay\<close>, under the comment \<^verbatim>\<open># Decay epsilon\<close>.\<close>
  "decay_epsilon ag =
     (if epsilon ag > epsilon_min ag then ag\<lparr>epsilon := epsilon ag * epsilon_decay ag\<rparr> else ag)"

definition replay ::
  "('net \<Rightarrow> observation \<Rightarrow> real list) \<Rightarrow> ('net \<Rightarrow> observation \<Rightarrow> real list \<Rightarrow> 'net)
    \<Rightarrow> 'net agent \<Rightarrow> int \<Rightarrow> rng \<Rightarrow> error + ('net agent \<times> rng)" where
  \<comment> \<open>The value \<^verbatim>\<open>replay\<close> returns is the constant 0 on both paths and is left out.\<close>
  "replay predict fit ag batch_size py_g =
     (if int (length (items (memory ag))) < batch_size then Inr (ag, py_g)
      else case random_sample (items (memory ag)) batch_size py_g of
             Inl e \<Rightarrow> Inl e
           | Inr (minibatch, py_g') \<Rightarrow>
               (case replay_batch predict fit ag minibatch of
                  Inl e \<Rightarrow> Inl e
                | Inr ag' \<Rightarrow> Inr (decay_epsilon ag', py_g')))"

section \<open>\<^verbatim>\<open>TrafficEnvironment\<close>\<close>

record intersection =
  position :: "int \<times> int"
  queue_ns :: int
  queue_ew :: int
  current_phase :: int
  time_in_phase :: int

text \<open>
  The dictionary \<^verbatim>\<open>self.intersections\<close> is iterated in insertion order by \<^verbatim>\<open>reset\<close> and
  by \<^verbatim>\<open>_update_traffic_flow\<close>, and each iteration draws random numbers, so it is an
  association list in insertion order (with distinct keys, as a dictionary has).
\<close>

record env =
  grid_size :: "int \<times> int"
  num_intersections :: int
  intersections :: "(int \<times> intersection) list"
  current_time :: real
  max_steps :: int
  current_step :: int

subsection \<open>Placement\<close>

fun isqrt :: "nat \<Rightarrow> nat" where
  "isqrt 0 = 0"
| "isqrt (Suc n) = (let r = isqrt n in if Suc r * Suc r \<le> Suc n then Suc r else r)"

definition linspace_int :: "int \<Rightarrow> nat \<Rightarrow> int list" where
  \<comment> \<open>\<^verbatim>\<open>np.linspace(0, stop, num, dtype=int)\<close> in exact arithmetic: \<open>num\<close> evenly spaced
      values from 0 to \<open>stop\<close>, each rounded down. numpy rounds the float product
      \<open>i * (stop / (num - 1))\<close> down, which can be one less than the value here when the
      exact product is an integer; the number of values is \<open>num\<close> in both, and the
      properties below use the positions for nothing else.\<close>
  "linspace_int stop num =
     (if num = 1 then [0]
      else map (\<lambda>i. (int i * stop) div (int num - 1)) [0..<num])"

definition new_intersection :: "int \<times> int \<Rightarrow> intersection" where
  "new_intersection p =
     \<lparr>position = p, queue_ns = 0, queue_ew = 0, current_phase = 0, time_in_phase = 0\<rparr>"

definition initialize_intersections ::
  "int \<times> int \<Rightarrow> int \<Rightarrow> error + (int \<times> intersection) list" where
  \<comment> \<open>\<^verbatim>\<open>int(np.sqrt(n))\<close> is \<open>isqrt n\<close> (lemma \<open>isqrt_floor_sqrt\<close>); on a negative \<open>n\<close> the
      square root is NaN and \<^verbatim>\<open>int\<close> raises \<^verbatim>\<open>ValueError\<close>.\<close>
  "initialize_intersections gsize n =
     (if n < 0 then Inl ValueError
      else
        let k = isqrt (nat n);
            row_positions = linspace_int (fst gsize - 1) k;
            col_positions = linspace_int (snd gsize - 1) k;
            cells = concat (map (\<lambda>r. map (\<lambda>c. (r, c)) col_positions) row_positions)
        in Inr (map (\<lambda>(intersection_id, p). (int intersection_id, new_intersection p))
                  (enumerate 0 cells)))"

definition env_init :: "int \<times> int \<Rightarrow> int \<Rightarrow> error + env" where
  "env_init gsize n =
     (case initialize_intersections gsize n of
        Inl e \<Rightarrow> Inl e
      | Inr xs \<Rightarrow>
          Inr \<lparr>grid_size = gsize, num_intersections = n, intersections = xs,
               current_time = 0, max_steps = 1000, current_step = 0\<rparr>)"

subsection \<open>Observations and reset\<close>

definition get_state :: "env \<Rightarrow> (int \<times> observation) list" where
  "get_state e =
     map (\<lambda>(i, x).
            (i, [of_int (queue_ns x), of_int (queue_ew x), of_int (current_phase x),
                 of_int (time_in_phase x),
                 sin (2 * pi * current_time e / 24), cos (2 * pi * current_time e / 24)]))
         (intersections e)"

fun reset_intersections ::
  "(int \<times> intersection) list \<Rightarrow> rng \<Rightarrow> (int \<times> intersection) list \<times> rng" where
  "reset_intersections [] g = ([], g)"
| "reset_intersections ((i, x) # rest) g =
     (case randint 0 10 g of (a, g1) \<Rightarrow>
      case randint 0 10 g1 of (b, g2) \<Rightarrow>
      case reset_intersections rest g2 of (rest', g3) \<Rightarrow>
        ((i, x\<lparr>queue_ns := a, queue_ew := b, current_phase := 0, time_in_phase := 0\<rparr>) # rest',
         g3))"

definition reset :: "env \<Rightarrow> rng \<Rightarrow> (int \<times> observation) list \<times> env \<times> rng" where
  "reset e g =
     (case reset_intersections (intersections e) g of (xs, g') \<Rightarrow>
        let e' = e\<lparr>current_time := 0, current_step := 0, intersections := xs\<rparr>
        in (get_state e', e', g'))"

subsection \<open>The exogenous arrivals: \<^verbatim>\<open>_update_traffic_flow\<close>\<close>

definition traffic_factor :: "real \<Rightarrow> real" where
  "traffic_factor hour =
     (if (7 \<le> hour \<and> hour < 9) \<or> (16 \<le> hour \<and> hour < 19) then 3 / 2
      else if 22 \<le> hour \<or> hour < 5 then 3 / 10
      else 1)"

definition arrive :: "real \<Rightarrow> intersection \<Rightarrow> rng \<Rightarrow> intersection \<times> rng" where
  \<comment> \<open>The body of the loop of \<^verbatim>\<open>_update_traffic_flow\<close> for one intersection.\<close>
  "arrive tf x g =
     (case random_float g of (u0, g1) \<Rightarrow>
      let random_factor = 1 / 2 + u0 in
      case random_float g1 of (u1, g2) \<Rightarrow>
      case (if u1 < 4 / 10 * tf * random_factor
            then (case randint 1 4 g2 of (n, g') \<Rightarrow>
                    (x\<lparr>queue_ns := min 30 (queue_ns x + n)\<rparr>, g'))
            else (x, g2)) of (x1, g3) \<Rightarrow>
      case random_float g3 of (u2, g4) \<Rightarrow>
        if u2 < 4 / 10 * tf * random_factor
        then (case randint 1 4 g4 of (n, g') \<Rightarrow>
                (x1\<lparr>queue_ew := min 30 (queue_ew x1 + n)\<rparr>, g'))
        else (x1, g4))"

fun arrivals ::
  "real \<Rightarrow> (int \<times> intersection) list \<Rightarrow> rng \<Rightarrow> (int \<times> intersection) list \<times> rng" where
  "arrivals tf [] g = ([], g)"
| "arrivals tf ((i, x) # rest) g =
     (case arrive tf x g of (x', g1) \<Rightarrow>
      case arrivals tf rest g1 of (rest', g2) \<Rightarrow> ((i, x') # rest', g2))"

definition update_traffic_flow :: "env \<Rightarrow> rng \<Rightarrow> env \<times> rng" where
  "update_traffic_flow e g =
     (case arrivals (traffic_factor (current_time e)) (intersections e) g of
        (xs, g') \<Rightarrow> (e\<lparr>intersections := xs\<rparr>, g'))"

subsection \<open>\<^verbatim>\<open>step\<close>\<close>

definition apply_action :: "int \<Rightarrow> intersection \<Rightarrow> intersection" where
  "apply_action action x =
     (if action = 0 then x
      else if action = 1 then x\<lparr>current_phase := 1 - current_phase x, time_in_phase := 0\<rparr>
      else if action = 2 then
        (if current_phase x = 0 then x else x\<lparr>current_phase := 0, time_in_phase := 0\<rparr>)
      else if action = 3 then
        (if current_phase x = 1 then x else x\<lparr>current_phase := 1, time_in_phase := 0\<rparr>)
      else x)"

definition traffic_flow :: "intersection \<Rightarrow> rng \<Rightarrow> intersection \<times> rng" where
  "traffic_flow x g =
     (if current_phase x = 0 then
        (case randint 0 3 g of (r1, g1) \<Rightarrow>
         let flow_rate = min (3 + r1) (queue_ns x);
             x1 = x\<lparr>queue_ns := max 0 (queue_ns x - flow_rate)\<rparr> in
         case randint 0 3 g1 of (r2, g2) \<Rightarrow>
           (x1\<lparr>queue_ew := min 30 (queue_ew x1 + r2)\<rparr>, g2))
      else
        (case randint 0 3 g of (r1, g1) \<Rightarrow>
         let flow_rate = min (3 + r1) (queue_ew x);
             x1 = x\<lparr>queue_ew := max 0 (queue_ew x - flow_rate)\<rparr> in
         case randint 0 3 g1 of (r2, g2) \<Rightarrow>
           (x1\<lparr>queue_ns := min 30 (queue_ns x1 + r2)\<rparr>, g2)))"

definition reward_of :: "intersection \<Rightarrow> int" where
  "reward_of x =
     (let total_queue = queue_ns x + queue_ew x;
          switching_penalty = (if time_in_phase x = 0 then 3 else 0)
      in - (total_queue + switching_penalty))"

record info_entry =
  info_queue_ns :: int
  info_queue_ew :: int
  info_phase :: int
  info_time_in_phase :: int

definition info_of :: "intersection \<Rightarrow> info_entry" where
  "info_of x =
     \<lparr>info_queue_ns = queue_ns x, info_queue_ew = queue_ew x,
      info_phase = current_phase x, info_time_in_phase = time_in_phase x\<rparr>"

definition process_intersection ::
  "int \<Rightarrow> intersection \<Rightarrow> rng \<Rightarrow> intersection \<times> int \<times> info_entry \<times> rng" where
  \<comment> \<open>One pass of the body of the loop of \<^verbatim>\<open>step\<close>, in the order of the source: the
      action, the traffic flow, the increment of \<^verbatim>\<open>time_in_phase\<close>, then the reward
      and the info entry read from the updated intersection.\<close>
  "process_intersection action x g =
     (let x1 = apply_action action x in
      case traffic_flow x1 g of (x2, g') \<Rightarrow>
        let x3 = x2\<lparr>time_in_phase := time_in_phase x2 + 1\<rparr>
        in (x3, reward_of x3, info_of x3, g'))"

fun process_actions ::
  "(int \<times> int) list \<Rightarrow> (int \<times> intersection) list \<Rightarrow> (int \<rightharpoonup> int) \<Rightarrow> (int \<rightharpoonup> info_entry)
    \<Rightarrow> rng \<Rightarrow> (int \<times> intersection) list \<times> (int \<rightharpoonup> int) \<times> (int \<rightharpoonup> info_entry) \<times> rng" where
  "process_actions [] xs rewards info g = (xs, rewards, info, g)"
| "process_actions ((i, action) # rest) xs rewards info g =
     (case map_of xs i of
        None \<Rightarrow> process_actions rest xs rewards info g
      | Some x \<Rightarrow>
          (case process_intersection action x g of (x', r, n, g') \<Rightarrow>
             process_actions rest (AList.update i x' xs) (rewards(i \<mapsto> r)) (info(i \<mapsto> n)) g'))"

definition py_fmod :: "real \<Rightarrow> real \<Rightarrow> real" where
  \<comment> \<open>The operator \<^verbatim>\<open>%\<close> on floats, for a positive modulus. The clock is advanced in
      exact arithmetic; the float clock of the source carries rounding errors and can
      be on the other side of a boundary of \<open>traffic_factor\<close> for a tick. The clock only
      selects the threshold of the arrivals, and the properties proved for all runs
      hold for every threshold.\<close>
  "py_fmod x m = x - m * of_int \<lfloor>x / m\<rfloor>"

record step_result =
  next_state :: "(int \<times> observation) list"
  rewards_of :: "int \<rightharpoonup> int"
  done_flag :: bool
  info_map :: "int \<rightharpoonup> info_entry"

definition step :: "env \<Rightarrow> (int \<times> int) list \<Rightarrow> rng \<Rightarrow> step_result \<times> env \<times> rng" where
  \<comment> \<open>\<open>actions\<close> is the dictionary of the caller in its insertion order.\<close>
  "step e actions g =
     (let e1 = e\<lparr>current_step := current_step e + 1,
                 current_time := py_fmod (current_time e + 5 / 60) 24\<rparr> in
      case update_traffic_flow e1 g of (e2, g1) \<Rightarrow>
      case process_actions actions (intersections e2) Map.empty Map.empty g1 of
        (xs, rewards, info, g2) \<Rightarrow>
          let e3 = e2\<lparr>intersections := xs\<rparr>;
              d = (current_step e3 \<ge> max_steps e3)
          in (\<lparr>next_state = get_state e3, rewards_of = rewards, done_flag = d,
               info_map = info\<rparr>, e3, g2))"

subsection \<open>Runs of the environment\<close>

datatype command = Reset | Step "(int \<times> int) list"

fun run :: "command list \<Rightarrow> env \<Rightarrow> rng \<Rightarrow> env \<times> rng" where
  "run [] e g = (e, g)"
| "run (Reset # cs) e g = (case reset e g of (_, e', g') \<Rightarrow> run cs e' g')"
| "run (Step actions # cs) e g = (case step e actions g of (_, e', g') \<Rightarrow> run cs e' g')"

definition queue_ok :: "intersection \<Rightarrow> bool" where
  "queue_ok x \<longleftrightarrow> 0 \<le> queue_ns x \<and> queue_ns x \<le> 30 \<and> 0 \<le> queue_ew x \<and> queue_ew x \<le> 30"

definition queues_in_range :: "env \<Rightarrow> bool" where
  "queues_in_range e = list_all (\<lambda>(i, x). queue_ok x) (intersections e)"

section \<open>Stand-ins for the external parts in the examples\<close>

text \<open>
  The examples need a network, a generator, observations and concrete agents. The
  simplest network is its own output row: \<open>constant_row\<close> predicts it for every
  observation and \<open>keep_net\<close> leaves it untouched when fitted. \<open>const_draws c\<close> is the
  generator whose raw draws are all \<open>c\<close>.
\<close>

definition constant_row :: "real list \<Rightarrow> observation \<Rightarrow> real list" where
  "constant_row n s = n"

definition keep_net :: "real list \<Rightarrow> observation \<Rightarrow> real list \<Rightarrow> real list" where
  "keep_net n s target_f = n"

definition const_draws :: "nat \<Rightarrow> nat \<Rightarrow> nat" where
  "const_draws c i = c"

definition flat_image :: "real \<Rightarrow> observation" where
  \<comment> \<open>An observation of shape \<open>(1, 8, 8, 1)\<close>, flattened, with every pixel \<open>v\<close>.\<close>
  "flat_image v = replicate 64 v"

definition new_agent :: "'net \<Rightarrow> 'net agent" where
  \<comment> \<open>The agent \<^verbatim>\<open>TrafficRLAgent((8, 8, 1), 4)\<close> right after construction, \<open>net\<close> being the
      primary network Keras built (lemma \<open>agent_init_new_agent\<close>).\<close>
  "new_agent net =
     \<lparr>state_size = TupleSize [8, 8, 1], action_size = 4,
      gamma = 95 / 100, epsilon = 1, epsilon_min = 1 / 100,
      epsilon_decay = 995 / 1000, learning_rate = 1 / 1000,
      memory = \<lparr>maxlen = 2000, items = []\<rparr>,
      primary_network = net, target_network = net\<rparr>"

definition low_epsilon_agent :: "real list agent" where
  \<comment> \<open>An agent whose epsilon is 0.01005, just above \<open>epsilon_min\<close>, with one remembered
      terminal transition.\<close>
  "low_epsilon_agent =
     remember ((new_agent [0, 0, 0, 0])\<lparr>epsilon := 201 / 20000\<rparr>)
       (flat_image 0, 0, -3, flat_image 1, True)"

definition grid_env :: env where
  \<comment> \<open>The environment \<^verbatim>\<open>TrafficEnvironment((10, 10), 4)\<close> right after construction
      (lemma \<open>env_init_grid_env\<close>).\<close>
  "grid_env =
     \<lparr>grid_size = (10, 10), num_intersections = 4,
      intersections = [(0, new_intersection (0, 0)), (1, new_intersection (0, 9)),
                       (2, new_intersection (9, 0)), (3, new_intersection (9, 9))],
      current_time = 0, max_steps = 1000, current_step = 0\<rparr>"

section \<open>Auxiliary predicates\<close>

definition entries_agree ::
  "(int \<times> intersection) list \<Rightarrow> (int \<rightharpoonup> int) \<Rightarrow> (int \<rightharpoonup> info_entry) \<Rightarrow> bool" where
  \<comment> \<open>Every reward entry belongs to an intersection of the list and is, with the info
      entry of the same id, what \<open>reward_of\<close> and \<open>info_of\<close> read from it.\<close>
  "entries_agree xs rewards info \<longleftrightarrow>
     (\<forall>i r. rewards i = Some r \<longrightarrow>
        (\<exists>x. map_of xs i = Some x \<and> r = reward_of x \<and> info i = Some (info_of x)))"

section \<open>The replay memory is a bounded queue\<close>

lemma foldl_deque_append_maxlen: "maxlen (foldl deque_append d ts) = maxlen d"
  by (induction ts arbitrary: d) (simp_all add: deque_append_def Let_def)

lemma deque_append_items:
  "length (items d) \<le> maxlen d \<Longrightarrow>
   items (deque_append d t) = drop (length (items d @ [t]) - maxlen d) (items d @ [t])"
  by (cases "items d") (auto simp: deque_append_def Let_def drop_Cons')

lemma drop_window:
  "drop (length (drop (length xs - m) xs @ [t]) - m) (drop (length xs - m) xs @ [t])
     = drop (Suc (length xs) - m) (xs @ [t])"
proof (cases "length xs \<le> m")
  case True
  then show ?thesis by simp
next
  case False
  then have "length (drop (length xs - m) xs @ [t]) - m = 1" by simp
  moreover have "Suc (length xs) - m = Suc (length xs - m)" using False by simp
  ultimately show ?thesis using False
    by (simp add: drop_Cons' Suc_diff_le)
qed

lemma foldl_deque_append_items:
  "length (items d) \<le> maxlen d \<Longrightarrow>
   items (foldl deque_append d ts) = drop (length (items d @ ts) - maxlen d) (items d @ ts)"
proof (induction ts rule: rev_induct)
  case Nil
  then show ?case by simp
next
  case (snoc t ts)
  let ?d = "foldl deque_append d ts"
  let ?xs = "items d @ ts"
  have ih: "items ?d = drop (length ?xs - maxlen d) ?xs" using snoc by simp
  have len: "length (items ?d) \<le> maxlen ?d"
    by (simp add: ih foldl_deque_append_maxlen)
  have "items (foldl deque_append d (ts @ [t])) = items (deque_append ?d t)" by simp
  also have "\<dots> = drop (length (items ?d @ [t]) - maxlen d) (items ?d @ [t])"
    using deque_append_items[OF len] by (simp add: foldl_deque_append_maxlen)
  also have "\<dots> = drop (Suc (length ?xs) - maxlen d) (?xs @ [t])"
    unfolding ih by (rule drop_window)
  finally show ?case by simp
qed

lemma remember_all_memory: "memory (foldl remember ag ts) = foldl deque_append (memory ag) ts"
  by (induction ts arbitrary: ag) (simp_all add: remember_def)

lemma agent_init_memory:
  "agent_init ssize asize built1 built2 = Inr ag \<Longrightarrow>
   memory ag = \<lparr>maxlen = 2000, items = []\<rparr>"
  by (auto simp: agent_init_def build_model_def update_target_network_def
      split: sum.splits size_arg.splits)

lemma agent_init_int_size: "agent_init (IntSize n) asize built1 built2 = Inl TypeError"
  by (simp add: agent_init_def build_model_def)

lemma agent_init_new_agent:
  "agent_init (TupleSize [8, 8, 1]) 4 (Inr net) (Inr net2) = Inr (new_agent net)"
  by (simp add: agent_init_def build_model_def update_target_network_def new_agent_def)

text \<open>
  Claim C8. The replay memory never holds more than its capacity, and \<^verbatim>\<open>remember\<close>
  appends with oldest-first eviction: after any sequence \<open>ts\<close> of calls of \<^verbatim>\<open>remember\<close>
  on an agent whose memory respects its capacity \<open>C\<close>, the capacity is unchanged, the
  memory holds at most \<open>C\<close> transitions, and they are exactly the last \<open>C\<close> of the old
  contents followed by \<open>ts\<close>, in insertion order. For every agent the constructor
  returns \<open>C\<close> is 2000 and the old contents are empty (lemma \<open>agent_init_memory\<close>), so
  after \<open>2000 + k\<close> insertions the memory is \<open>drop k ts\<close>.
\<close>

theorem remember_bounded_fifo:
  assumes "length (items (memory ag)) \<le> maxlen (memory ag)"
  shows "maxlen (memory (foldl remember ag ts)) = maxlen (memory ag)
       \<and> length (items (memory (foldl remember ag ts))) \<le> maxlen (memory ag)
       \<and> items (memory (foldl remember ag ts))
           = drop (length (items (memory ag) @ ts) - maxlen (memory ag)) (items (memory ag) @ ts)"
proof -
  have "items (foldl deque_append (memory ag) ts)
          = drop (length (items (memory ag) @ ts) - maxlen (memory ag)) (items (memory ag) @ ts)"
    using assms by (rule foldl_deque_append_items)
  then show ?thesis
    by (simp add: remember_all_memory foldl_deque_append_maxlen)
qed

theorem remember_bounded_fifo_witness:
  "items (memory (foldl remember
      ((new_agent ())\<lparr>memory := \<lparr>maxlen = 2, items = []\<rparr>\<rparr>)
      [(flat_image 1, 0, -1, flat_image 2, False), (flat_image 2, 1, -2, flat_image 3, False), (flat_image 3, 2, -3, flat_image 4, True)]))
   = [(flat_image 2, 1, -2, flat_image 3, False), (flat_image 3, 2, -3, flat_image 4, True)]"
proof -
  let ?ag = "(new_agent ())\<lparr>memory := \<lparr>maxlen = 2, items = []\<rparr>\<rparr>"
  have h: "length (items (memory ?ag)) \<le> maxlen (memory ?ag)" by simp
  show ?thesis
    using remember_bounded_fifo [OF h,
        of "[(flat_image 1, 0, -1, flat_image 2, False), (flat_image 2, 1, -2, flat_image 3, False), (flat_image 3, 2, -3, flat_image 4, True)]"]
    by simp
qed

section \<open>Greedy action selection\<close>

lemma argmax_scan_spec:
  "best < length ps \<Longrightarrow> bv = ps ! best \<Longrightarrow> i = length ps \<Longrightarrow>
   (\<forall>j<length ps. ps ! j \<le> bv) \<Longrightarrow> (\<forall>j<best. ps ! j < bv) \<Longrightarrow>
   argmax_scan best bv i xs < length (ps @ xs) \<and>
   (\<forall>j<length (ps @ xs). (ps @ xs) ! j \<le> (ps @ xs) ! argmax_scan best bv i xs) \<and>
   (\<forall>j<argmax_scan best bv i xs. (ps @ xs) ! j < (ps @ xs) ! argmax_scan best bv i xs)"
proof (induction xs arbitrary: best bv i ps)
  case Nil
  then show ?case by simp
next
  case (Cons x xs)
  show ?case
  proof (cases "bv < x")
    case True
    have a: "length ps < length (ps @ [x])" by simp
    have b: "x = (ps @ [x]) ! length ps" by simp
    have c: "Suc i = length (ps @ [x])" using Cons.prems by simp
    have d: "\<forall>j<length (ps @ [x]). (ps @ [x]) ! j \<le> x"
      using Cons.prems True by (auto simp: nth_append less_Suc_eq intro: less_imp_le order_trans)
    have e: "\<forall>j<length ps. (ps @ [x]) ! j < x"
      using Cons.prems True by (auto simp: nth_append)
    from Cons.IH[OF a b c d e] True Cons.prems(3) show ?thesis by simp
  next
    case False
    have a: "best < length (ps @ [x])" using Cons.prems by simp
    have b: "bv = (ps @ [x]) ! best" using Cons.prems by (simp add: nth_append)
    have c: "Suc i = length (ps @ [x])" using Cons.prems by simp
    have d: "\<forall>j<length (ps @ [x]). (ps @ [x]) ! j \<le> bv"
      using Cons.prems False by (auto simp: nth_append less_Suc_eq)
    have e: "\<forall>j<best. (ps @ [x]) ! j < bv"
      using Cons.prems by (auto simp: nth_append)
    from Cons.IH[OF a b c d e] False show ?thesis by simp
  qed
qed

lemma np_argmax_spec:
  assumes "q \<noteq> []"
  shows "\<exists>i. np_argmax q = Inr i \<and> i < length q \<and> (\<forall>j<length q. q ! j \<le> q ! i)
             \<and> (\<forall>j<i. q ! j < q ! i)"
proof -
  from assms obtain x rest where q: "q = x # rest" by (cases q) auto
  have "argmax_scan 0 x 1 rest < length ([x] @ rest) \<and>
   (\<forall>j<length ([x] @ rest). ([x] @ rest) ! j \<le> ([x] @ rest) ! argmax_scan 0 x 1 rest) \<and>
   (\<forall>j<argmax_scan 0 x 1 rest. ([x] @ rest) ! j < ([x] @ rest) ! argmax_scan 0 x 1 rest)"
    by (rule argmax_scan_spec) simp_all
  then show ?thesis by (simp add: q np_argmax_def)
qed

text \<open>
  Claim C7. With \<^verbatim>\<open>training=False\<close>, \<^verbatim>\<open>act\<close> draws from neither generator and
  returns the position of the maximum of the primary network's row, the lowest such
  position on ties. The action is a function of that row alone: any other run whose
  primary network predicts the same row, whatever the agent, the observation and the
  state of the generators, returns the same action.
\<close>

theorem act_greedy_deterministic:
  fixes predict :: "'net \<Rightarrow> observation \<Rightarrow> real list" and ag :: "'net agent"
    and s :: observation
  defines "q \<equiv> predict (primary_network ag) s"
  assumes "q \<noteq> []"
  shows "\<exists>i. act predict ag s False np_g py_g = Inr (int i, np_g, py_g)
             \<and> i < length q \<and> (\<forall>j<length q. q ! j \<le> q ! i) \<and> (\<forall>j<i. q ! j < q ! i)
             \<and> (\<forall>ag' s' np_g' py_g'. predict (primary_network ag') s' = q \<longrightarrow>
                   act predict ag' s' False np_g' py_g' = Inr (int i, np_g', py_g'))"
proof -
  from np_argmax_spec[OF assms(2)] obtain i where
    "np_argmax q = Inr i" "i < length q" "\<forall>j<length q. q ! j \<le> q ! i" "\<forall>j<i. q ! j < q ! i"
    by blast
  then show ?thesis unfolding q_def by (auto simp: act_def)
qed

theorem act_greedy_deterministic_witness:
  "(\<exists>i. act (\<lambda>n s. n) (new_agent [2, 7, 7, 1]) (flat_image 3) False
            (\<lambda>_. 5, 0) (\<lambda>_. 9, 0) = Inr (int i, (\<lambda>_. 5, 0), (\<lambda>_. 9, 0))
        \<and> i < length [2, 7, 7, 1 :: real]
        \<and> (\<forall>j<length [2, 7, 7, 1 :: real]. [2, 7, 7, 1 :: real] ! j \<le> [2, 7, 7, 1] ! i)
        \<and> (\<forall>j<i. [2, 7, 7, 1 :: real] ! j < [2, 7, 7, 1] ! i)
        \<and> act (\<lambda>n s. n) ((new_agent [2, 7, 7, 1])\<lparr>epsilon := 1 / 2, target_network := [1, 1, 1, 1]\<rparr>)
            (flat_image 5) False (\<lambda>_. 8, 3) (\<lambda>_. 2, 6)
          = Inr (int i, (\<lambda>_. 8, 3), (\<lambda>_. 2, 6)))
   \<and> act (\<lambda>n s. n) (new_agent [2, 7, 7, 1]) (flat_image 3) False
         (\<lambda>_. 5, 0) (\<lambda>_. 9, 0) = Inr (1, (\<lambda>_. 5, 0), (\<lambda>_. 9, 0))"
proof -
  let ?ag = "(new_agent [2, 7, 7, 1]) :: real list agent"
  let ?ag' = "(new_agent [2, 7, 7, 1])\<lparr>epsilon := 1 / 2, target_network := [1, 1, 1, 1]\<rparr> :: real list agent"
  have p: "(\<lambda>n s. n) (primary_network ?ag) (flat_image 3) = [2, 7, 7, 1::real]"
    by (simp add: new_agent_def)
  have p': "(\<lambda>n s. n) (primary_network ?ag') (flat_image 5)
              = (\<lambda>n s. n) (primary_network ?ag) (flat_image 3)"
    by (simp add: new_agent_def)
  have ne: "(\<lambda>n s. n) (primary_network ?ag) (flat_image 3) \<noteq> []"
    by (simp add: new_agent_def)
  have v: "act (\<lambda>n s. n) ?ag (flat_image 3) False (\<lambda>_. 5, 0) (\<lambda>_. 9, 0)
             = Inr (1, (\<lambda>_. 5, 0), (\<lambda>_. 9, 0))"
    by (simp add: act_def np_argmax_def new_agent_def)
  from act_greedy_deterministic
         [of "\<lambda>n s. n" ?ag "flat_image 3" "(\<lambda>_. 5, 0)" "(\<lambda>_. 9, 0)", OF ne]
  obtain i where
    1: "act (\<lambda>n s. n) ?ag (flat_image 3) False (\<lambda>_. 5, 0) (\<lambda>_. 9, 0)
          = Inr (int i, (\<lambda>_. 5, 0), (\<lambda>_. 9, 0))"
    and 2: "i < length [2, 7, 7, 1 :: real]"
    and 3: "\<forall>j<length [2, 7, 7, 1 :: real]. [2, 7, 7, 1 :: real] ! j \<le> [2, 7, 7, 1] ! i"
    and 4: "\<forall>j<i. [2, 7, 7, 1 :: real] ! j < [2, 7, 7, 1] ! i"
    and 5: "\<forall>ag' s' np_g' py_g'.
              (\<lambda>n s. n) (primary_network ag') s'
                = (\<lambda>n s. n) (primary_network ?ag) (flat_image 3) \<longrightarrow>
              act (\<lambda>n s. n) ag' s' False np_g' py_g' = Inr (int i, np_g', py_g')"
    unfolding p by blast
  from 5 p' have 6: "act (\<lambda>n s. n) ?ag' (flat_image 5) False (\<lambda>_. 8, 3) (\<lambda>_. 2, 6)
          = Inr (int i, (\<lambda>_. 8, 3), (\<lambda>_. 2, 6))"
    by blast
  from 1 2 3 4 6 v show ?thesis by blast
qed

section \<open>Learning targets\<close>

text \<open>
  Claim C3. The learning target of a terminal transition is its reward. For a
  non-terminal transition it follows the double-DQN rule: the next action is the
  position of the maximum of the primary network's row on the next state (the first
  one on ties), and the target is the reward plus \<open>gamma\<close> times the target network's
  value at that position. The witness is the example of the specification: rows
  \<open>[1, 5, 3, 2]\<close> and \<open>[4, 4, 4, 4]\<close>, \<open>gamma = 0.95\<close> and reward \<open>-6\<close> give next action 1
  and target \<open>-2.2\<close>.
\<close>

theorem td_target_double_dqn:
  fixes predict :: "'net \<Rightarrow> observation \<Rightarrow> real list" and ag :: "'net agent"
    and s' :: observation
  defines "pq \<equiv> predict (primary_network ag) s'"
  defines "tq \<equiv> predict (target_network ag) s'"
  assumes "pq \<noteq> []" and "length tq = length pq"
  shows "td_target predict ag (s, a, r, s', True) = Inr r
       \<and> (\<exists>next_action. np_argmax pq = Inr next_action
            \<and> next_action < length pq
            \<and> (\<forall>j<length pq. pq ! j \<le> pq ! next_action)
            \<and> (\<forall>j<next_action. pq ! j < pq ! next_action)
            \<and> td_target predict ag (s, a, r, s', False) = Inr (r + gamma ag * tq ! next_action))"
proof -
  from np_argmax_spec[OF assms(3)] obtain i where
    i: "np_argmax pq = Inr i" "i < length pq" "\<forall>j<length pq. pq ! j \<le> pq ! i"
       "\<forall>j<i. pq ! j < pq ! i"
    by blast
  have "td_target predict ag (s, a, r, s', False) = Inr (r + gamma ag * tq ! i)"
    using i(1,2) assms(4) unfolding pq_def tq_def by (simp add: Let_def)
  with i show ?thesis by auto
qed

theorem td_target_double_dqn_witness:
  "np_argmax [1, 5, 3, 2] = Inr 1
   \<and> td_target (\<lambda>n s. n)
        ((new_agent [4, 4, 4, 4])\<lparr>primary_network := [1, 5, 3, 2]\<rparr>)
        (flat_image 2, 0, -6, flat_image 1, False) = Inr (- 22 / 10)"
proof -
  let ?ag = "(new_agent [4, 4, 4, 4])\<lparr>primary_network := [1, 5, 3, 2]\<rparr>
               :: real list agent"
  have pq: "(\<lambda>n s. n) (primary_network ?ag) (flat_image 1) = [1, 5, 3, 2::real]"
    by simp
  have tq: "(\<lambda>n s. n) (target_network ?ag) (flat_image 1) = [4, 4, 4, 4::real]"
    by (simp add: new_agent_def)
  have g: "gamma ?ag = 95 / 100" by (simp add: new_agent_def)
  have h1: "(\<lambda>n s. n) (primary_network ?ag) (flat_image 1) \<noteq> []" by simp
  have h2: "length ((\<lambda>n s. n) (target_network ?ag) (flat_image 1))
             = length ((\<lambda>n s. n) (primary_network ?ag) (flat_image 1))"
    unfolding tq pq by simp
  have am: "np_argmax [1, 5, 3, 2] = Inr 1" by (simp add: np_argmax_def)
  from td_target_double_dqn
         [of "\<lambda>n s. n" ?ag "flat_image 1" "flat_image 2" 0 "-6", OF h1 h2]
  obtain na where "np_argmax [1, 5, 3, 2] = Inr na"
    and "td_target (\<lambda>n s. n) ?ag (flat_image 2, 0, -6, flat_image 1, False)
           = Inr (-6 + gamma ?ag * [4, 4, 4, 4] ! na)"
    unfolding pq tq by auto
  with am g show ?thesis by simp
qed

text \<open>
  Claim C6. For a sampled transition \<open>(s, a, r, s', d)\<close> whose target is \<open>target\<close>, the
  vector handed to \<^verbatim>\<open>fit\<close> is the primary network's current row on \<open>s\<close> with the
  position that the index \<open>a\<close> addresses overwritten by \<open>target\<close>: it has the length of
  the row and agrees with it at every other position.
\<close>

theorem target_vector_overwrites_action_only:
  fixes predict :: "'net \<Rightarrow> observation \<Rightarrow> real list" and ag :: "'net agent"
    and s :: observation
  defines "est \<equiv> predict (primary_network ag) s"
  assumes "td_target predict ag (s, a, r, s', d) = Inr target"
    and "py_index est a = Inr j"
  shows "\<exists>target_f. target_vector predict ag (s, a, r, s', d) = Inr target_f
           \<and> replay_sample predict fit ag (s, a, r, s', d)
               = Inr (ag\<lparr>primary_network := fit (primary_network ag) s target_f\<rparr>)
           \<and> length target_f = length est
           \<and> j < length est
           \<and> j = (if a < 0 then nat (int (length est) + a) else nat a)
           \<and> target_f ! j = target
           \<and> (\<forall>k<length est. k \<noteq> j \<longrightarrow> target_f ! k = est ! k)"
proof -
  have j: "j < length est" "j = (if a < 0 then nat (int (length est) + a) else nat a)"
    using assms(3) by (auto simp: py_index_def Let_def split: if_splits)
  have tv: "target_vector predict ag (s, a, r, s', d) = Inr (list_update est j target)"
    using assms(2,3) unfolding est_def by (simp add: Let_def)
  then have "replay_sample predict fit ag (s, a, r, s', d)
               = Inr (ag\<lparr>primary_network := fit (primary_network ag) s (list_update est j target)\<rparr>)"
    by simp
  with tv j show ?thesis by simp
qed

theorem target_vector_overwrites_action_only_witness:
  "target_vector (\<lambda>n s. n)
     ((new_agent [4, 4, 4, 4])\<lparr>primary_network := [1, 5, 3, 2]\<rparr>)
     (flat_image 2, 2, -6, flat_image 1, True) = Inr [1, 5, -6, 2]
   \<and> (\<exists>target_f. target_vector (\<lambda>n s. n)
          ((new_agent [4, 4, 4, 4])\<lparr>primary_network := [1, 5, 3, 2]\<rparr>)
          (flat_image 2, 2, -6, flat_image 1, True) = Inr target_f
        \<and> target_f ! 2 = -6
        \<and> (\<forall>k<4. k \<noteq> 2 \<longrightarrow> target_f ! k = [1, 5, 3, 2] ! k))"
proof -
  let ?ag = "(new_agent [4, 4, 4, 4])\<lparr>primary_network := [1, 5, 3, 2]\<rparr>
               :: real list agent"
  have h1: "td_target (\<lambda>n s. n) ?ag (flat_image 2, 2, -6, flat_image 1, True)
              = Inr (-6)"
    by simp
  have h2: "py_index ((\<lambda>n s. n) (primary_network ?ag) (flat_image 2)) 2 = Inr 2"
    by (simp add: py_index_def)
  have v: "target_vector (\<lambda>n s. n) ?ag (flat_image 2, 2, -6, flat_image 1, True)
             = Inr [1, 5, -6, 2]"
    by (simp add: py_index_def)
  from target_vector_overwrites_action_only [OF h1 h2, of "\<lambda>n s t. t"] v
  show ?thesis by auto
qed

section \<open>Replay: the short-memory exit and the decay of epsilon\<close>

lemma replay_sample_frame:
  "replay_sample predict fit ag t = Inr ag' \<Longrightarrow>
   epsilon ag' = epsilon ag \<and> epsilon_min ag' = epsilon_min ag
   \<and> epsilon_decay ag' = epsilon_decay ag \<and> memory ag' = memory ag
   \<and> target_network ag' = target_network ag \<and> gamma ag' = gamma ag"
  by (cases t) (auto split: sum.splits)

lemma replay_batch_frame:
  "replay_batch predict fit ag ts = Inr ag' \<Longrightarrow>
   epsilon ag' = epsilon ag \<and> epsilon_min ag' = epsilon_min ag
   \<and> epsilon_decay ag' = epsilon_decay ag \<and> memory ag' = memory ag
   \<and> target_network ag' = target_network ag \<and> gamma ag' = gamma ag"
proof (induction ts arbitrary: ag)
  case Nil
  then show ?case by simp
next
  case (Cons t ts)
  then obtain ag1 where 1: "replay_sample predict fit ag t = Inr ag1"
    and 2: "replay_batch predict fit ag1 ts = Inr ag'"
    by (auto split: sum.splits)
  from Cons.IH[OF 2] replay_sample_frame[OF 1] show ?case by simp
qed

text \<open>
  Claim C4. When the memory holds fewer transitions than \<open>batch_size\<close>, \<^verbatim>\<open>replay\<close>
  returns at once: the agent (memory, both networks, epsilon and everything else) and
  the random generator are what they were.
\<close>

theorem replay_short_memory_noop:
  "int (length (items (memory ag))) < batch_size \<Longrightarrow>
   replay predict fit ag batch_size py_g = Inr (ag, py_g)"
  by (simp add: replay_def)

theorem replay_short_memory_noop_witness:
  "replay (\<lambda>n s. [0, 0, 0, 0]) (\<lambda>n s t. Suc n)
     (remember (new_agent 0) (flat_image 0, 0, -3, flat_image 1, False))
     32 (\<lambda>_. 0, 0)
   = Inr (remember (new_agent 0) (flat_image 0, 0, -3, flat_image 1, False),
          (\<lambda>_. 0, 0))"
proof -
  let ?ag = "remember (new_agent (0::nat))
               (flat_image 0, 0, -3, flat_image 1, False)"
  have h: "int (length (items (memory ?ag))) < 32"
    by (simp add: remember_def deque_append_def new_agent_def)
  show ?thesis
    by (rule replay_short_memory_noop [OF h])
qed

text \<open>
  Claim C2, as the source has it. A call of \<^verbatim>\<open>replay\<close> that processes a batch multiplies
  epsilon by \<open>epsilon_decay\<close> when epsilon is strictly above \<open>epsilon_min\<close> and leaves it
  alone otherwise; a call that returns early leaves it alone. With a decay factor in
  \<open>[0, 1]\<close> and a non-negative \<open>epsilon_min\<close>, epsilon therefore never increases, and
  it never drops below \<open>epsilon_min * epsilon_decay\<close> once it is at least that. It is
  not clamped at \<open>epsilon_min\<close>: the last decay step may carry it below.
\<close>

theorem replay_epsilon_decay:
  assumes "replay predict fit ag batch_size py_g = Inr (ag', py_g')"
    and "0 \<le> epsilon_decay ag" and "epsilon_decay ag \<le> 1" and "0 \<le> epsilon_min ag"
  shows "epsilon ag' \<le> epsilon ag
       \<and> (epsilon_min ag * epsilon_decay ag \<le> epsilon ag \<longrightarrow>
            epsilon_min ag * epsilon_decay ag \<le> epsilon ag')
       \<and> (batch_size \<le> int (length (items (memory ag))) \<longrightarrow>
            epsilon ag' = (if epsilon ag > epsilon_min ag then epsilon ag * epsilon_decay ag
                           else epsilon ag))
       \<and> epsilon_min ag' = epsilon_min ag \<and> epsilon_decay ag' = epsilon_decay ag"
proof (cases "int (length (items (memory ag))) < batch_size")
  case True
  with assms show ?thesis by (simp add: replay_def)
next
  case False
  with assms(1) obtain minibatch ag1 where
    b: "replay_batch predict fit ag minibatch = Inr ag1" and ag': "ag' = decay_epsilon ag1"
    by (auto simp: replay_def split: sum.splits)
  from replay_batch_frame[OF b] have
    f: "epsilon ag1 = epsilon ag" "epsilon_min ag1 = epsilon_min ag"
       "epsilon_decay ag1 = epsilon_decay ag"
    by simp_all
  have eq: "epsilon ag' = (if epsilon ag > epsilon_min ag then epsilon ag * epsilon_decay ag
                           else epsilon ag)"
    by (simp add: ag' decay_epsilon_def f)
  have mono: "epsilon ag' \<le> epsilon ag"
  proof (cases "epsilon ag > epsilon_min ag")
    case True
    then have "0 \<le> epsilon ag" using assms(4) by simp
    then have "epsilon ag * epsilon_decay ag \<le> epsilon ag * 1"
      using assms(3) by (intro mult_left_mono) simp_all
    with True eq show ?thesis by simp
  next
    case False
    with eq show ?thesis by simp
  qed
  have floor: "epsilon_min ag * epsilon_decay ag \<le> epsilon ag \<longrightarrow>
                 epsilon_min ag * epsilon_decay ag \<le> epsilon ag'"
  proof (cases "epsilon ag > epsilon_min ag")
    case True
    then have "epsilon_min ag * epsilon_decay ag \<le> epsilon ag * epsilon_decay ag"
      using assms(2) by (intro mult_right_mono) simp_all
    with True eq show ?thesis by simp
  next
    case False
    with eq show ?thesis by simp
  qed
  have "epsilon_min ag' = epsilon_min ag \<and> epsilon_decay ag' = epsilon_decay ag"
    by (simp add: ag' decay_epsilon_def f)
  with eq mono floor False show ?thesis by simp
qed

lemma replay_low_epsilon_agent:
  "replay constant_row keep_net low_epsilon_agent 1 (const_draws 0, 0)
     = Inr (low_epsilon_agent\<lparr>epsilon := 39999 / 4000000\<rparr>, (const_draws 0, 1))"
  by (simp add: low_epsilon_agent_def replay_def random_sample_def draw_def remember_def
      deque_append_def new_agent_def decay_epsilon_def
      py_index_def constant_row_def keep_net_def)

lemma low_epsilon_agent_parameters:
  "epsilon low_epsilon_agent = 201 / 20000 \<and> epsilon_min low_epsilon_agent = 1 / 100
   \<and> epsilon_decay low_epsilon_agent = 995 / 1000
   \<and> length (items (memory low_epsilon_agent)) = 1"
  by (simp add: low_epsilon_agent_def remember_def deque_append_def new_agent_def)

theorem replay_epsilon_decay_witness:
  "epsilon (low_epsilon_agent\<lparr>epsilon := 39999 / 4000000\<rparr>) \<le> epsilon low_epsilon_agent
   \<and> epsilon_min low_epsilon_agent * epsilon_decay low_epsilon_agent
       \<le> epsilon (low_epsilon_agent\<lparr>epsilon := 39999 / 4000000\<rparr>)
   \<and> epsilon (low_epsilon_agent\<lparr>epsilon := 39999 / 4000000\<rparr>)
       = epsilon low_epsilon_agent * epsilon_decay low_epsilon_agent"
proof -
  have h2: "0 \<le> epsilon_decay low_epsilon_agent" "epsilon_decay low_epsilon_agent \<le> 1"
    and h4: "0 \<le> epsilon_min low_epsilon_agent"
    by (simp_all add: low_epsilon_agent_parameters)
  show ?thesis
    using replay_epsilon_decay [OF replay_low_epsilon_agent h2 h4]
    by (simp add: low_epsilon_agent_parameters)
qed

subsection \<open>The schedule of a new agent crosses \<open>epsilon_min\<close>\<close>

text \<open>
  With the constants of \<^verbatim>\<open>__init__\<close> the decay is \<open>0.995\<close> per processed batch. Bounds
  on the powers of \<open>0.995\<close>, obtained by repeated squaring, show that epsilon is still
  above \<open>0.01\<close> after 918 decays and below it after 919.
\<close>

lemma square_upper:
  fixes x :: real
  assumes "0 \<le> x" and "x ^ k \<le> u" and "u * u \<le> v"
  shows "x ^ (2 * k) \<le> v"
proof -
  have "0 \<le> x ^ k" using assms(1) by simp
  then have "x ^ k * x ^ k \<le> u * u" using assms(2) by (intro mult_mono) simp_all
  then show ?thesis using assms(3) by (simp add: mult_2 power_add)
qed

lemma square_lower:
  fixes x :: real
  assumes "0 \<le> l" and "l \<le> x ^ k" and "v \<le> l * l"
  shows "v \<le> x ^ (2 * k)"
proof -
  have "l * l \<le> x ^ k * x ^ k" using assms(1,2) by (intro mult_mono) simp_all
  then show ?thesis using assms(3) by (simp add: mult_2 power_add)
qed

lemma decay_power_upper:
  "(199 / 200 :: real) ^ 2 \<le> 39601 / 40000"
  "(199 / 200 :: real) ^ 4 \<le> 1225187 / 1250000"
  "(199 / 200 :: real) ^ 16 \<le> 9229317 / 10000000"
  "(199 / 200 :: real) ^ 128 \<le> 329031 / 625000"
  "(199 / 200 :: real) ^ 256 \<le> 692873 / 2500000"
  "(199 / 200 :: real) ^ 512 \<le> 768117 / 10000000"
proof -
  let ?a = "199 / 200 :: real"
  have a: "0 \<le> ?a" by simp
  have "?a ^ 1 \<le> 199 / 200" by simp
  from square_upper[OF a this, of "39601 / 40000"] show u2: "?a ^ 2 \<le> 39601 / 40000" by simp
  from square_upper[OF a u2, of "1225187 / 1250000"] show u4: "?a ^ 4 \<le> 1225187 / 1250000" by simp
  from square_upper[OF a u4, of "9606933 / 10000000"] have u8: "?a ^ 8 \<le> 9606933 / 10000000" by simp
  from square_upper[OF a u8, of "9229317 / 10000000"] show u16: "?a ^ 16 \<le> 9229317 / 10000000" by simp
  from square_upper[OF a u16, of "851803 / 1000000"] have u32: "?a ^ 32 \<le> 851803 / 1000000" by simp
  from square_upper[OF a u32, of "1813921 / 2500000"] have u64: "?a ^ 64 \<le> 1813921 / 2500000" by simp
  from square_upper[OF a u64, of "329031 / 625000"] show u128: "?a ^ 128 \<le> 329031 / 625000" by simp
  from square_upper[OF a u128, of "692873 / 2500000"] show u256: "?a ^ 256 \<le> 692873 / 2500000" by simp
  from square_upper[OF a u256, of "768117 / 10000000"] show "?a ^ 512 \<le> 768117 / 10000000" by simp
qed

lemma decay_power_lower:
  "39601 / 40000 \<le> (199 / 200 :: real) ^ 2"
  "1960299 / 2000000 \<le> (199 / 200 :: real) ^ 4"
  "922931 / 1000000 \<le> (199 / 200 :: real) ^ 16"
  "2632229 / 5000000 \<le> (199 / 200 :: real) ^ 128"
  "2771451 / 10000000 \<le> (199 / 200 :: real) ^ 256"
  "384047 / 5000000 \<le> (199 / 200 :: real) ^ 512"
proof -
  let ?a = "199 / 200 :: real"
  have "199 / 200 \<le> ?a ^ 1" by simp
  from square_lower[OF _ this, of "39601 / 40000"] show l2: "39601 / 40000 \<le> ?a ^ 2" by simp
  from square_lower[OF _ l2, of "1960299 / 2000000"] show l4: "1960299 / 2000000 \<le> ?a ^ 4" by simp
  from square_lower[OF _ l4, of "960693 / 1000000"] have l8: "960693 / 1000000 \<le> ?a ^ 8" by simp
  from square_lower[OF _ l8, of "922931 / 1000000"] show l16: "922931 / 1000000 \<le> ?a ^ 16" by simp
  from square_lower[OF _ l16, of "66547 / 78125"] have l32: "66547 / 78125 \<le> ?a ^ 32" by simp
  from square_lower[OF _ l32, of "7255659 / 10000000"] have l64: "7255659 / 10000000 \<le> ?a ^ 64" by simp
  from square_lower[OF _ l64, of "2632229 / 5000000"] show l128: "2632229 / 5000000 \<le> ?a ^ 128" by simp
  from square_lower[OF _ l128, of "2771451 / 10000000"] show l256: "2771451 / 10000000 \<le> ?a ^ 256" by simp
  from square_lower[OF _ l256, of "384047 / 5000000"] show "384047 / 5000000 \<le> ?a ^ 512" by simp
qed

lemma decay_919_below: "(199 / 200 :: real) ^ 919 < 1 / 100"
proof -
  let ?a = "199 / 200 :: real"
  have split: "?a ^ 919 = ?a ^ 512 * (?a ^ 256 * (?a ^ 128 * (?a ^ 16 * (?a ^ 4 * (?a ^ 2 * ?a)))))"
    by (simp only: power_add[symmetric] power_Suc2[symmetric]) simp
  have "?a ^ 512 * (?a ^ 256 * (?a ^ 128 * (?a ^ 16 * (?a ^ 4 * (?a ^ 2 * ?a)))))
      \<le> 768117 / 10000000 * (692873 / 2500000 * (329031 / 625000 * (9229317 / 10000000
           * (1225187 / 1250000 * (39601 / 40000 * (199 / 200))))))"
    by (intro mult_mono decay_power_upper order_refl mult_nonneg_nonneg zero_le_power) simp_all
  also have "\<dots> < 1 / 100" by simp
  finally show ?thesis unfolding split .
qed

lemma decay_918_above: "1 / 100 < (199 / 200 :: real) ^ 918"
proof -
  let ?a = "199 / 200 :: real"
  have split: "?a ^ 918 = ?a ^ 512 * (?a ^ 256 * (?a ^ 128 * (?a ^ 16 * (?a ^ 4 * ?a ^ 2))))"
    by (simp only: power_add[symmetric]) simp
  have "(1 / 100 :: real) < (384047 / 5000000 * (2771451 / 10000000 * (2632229 / 5000000
      * (922931 / 1000000 * (1960299 / 2000000 * (39601 / 40000)))))) "
    by simp
  also have "\<dots> \<le> ?a ^ 512 * (?a ^ 256 * (?a ^ 128 * (?a ^ 16 * (?a ^ 4 * ?a ^ 2))))"
    by (intro mult_mono decay_power_lower order_refl mult_nonneg_nonneg zero_le_power) simp_all
  finally show ?thesis unfolding split .
qed

lemma decay_epsilon_iterate:
  assumes "agent_init ssize asize built1 built2 = Inr ag"
  shows "n \<le> 919 \<Longrightarrow>
     epsilon ((decay_epsilon ^^ n) ag) = (199 / 200) ^ n
   \<and> epsilon_min ((decay_epsilon ^^ n) ag) = 1 / 100
   \<and> epsilon_decay ((decay_epsilon ^^ n) ag) = 199 / 200"
proof (induction n)
  case 0
  from assms show ?case
    by (auto simp: agent_init_def build_model_def update_target_network_def
        split: sum.splits size_arg.splits)
next
  case (Suc n)
  then have n: "n \<le> 918" by simp
  have "(199 / 200 :: real) ^ 918 \<le> (199 / 200) ^ n"
    using n by (intro power_decreasing) simp_all
  then have "1 / 100 < (199 / 200 :: real) ^ n"
    by (rule less_le_trans[OF decay_918_above])
  with Suc show ?case by (simp add: decay_epsilon_def)
qed

lemma default_schedule_falls_below_min:
  assumes "agent_init ssize asize built1 built2 = Inr ag"
  shows "epsilon ((decay_epsilon ^^ 919) ag) < epsilon_min ((decay_epsilon ^^ 919) ag)"
  using decay_epsilon_iterate[OF assms, of 919] decay_919_below by simp

text \<open>
  The claim as the specification words it fails: one processed batch takes the epsilon
  \<open>0.01005\<close> of \<open>low_epsilon_agent\<close> to \<open>0.00999975\<close>, which is below \<open>epsilon_min = 0.01\<close>
  and is not \<open>max epsilon_min (epsilon * epsilon_decay)\<close>. A new agent gets below
  \<open>epsilon_min\<close> as well, with its 919th processed batch
  (\<open>default_schedule_falls_below_min\<close>).
\<close>

theorem replay_epsilon_below_min:
  "replay constant_row keep_net low_epsilon_agent 1 (const_draws 0, 0)
     = Inr (low_epsilon_agent\<lparr>epsilon := 39999 / 4000000\<rparr>, (const_draws 0, 1))
   \<and> epsilon (low_epsilon_agent\<lparr>epsilon := 39999 / 4000000\<rparr>) < epsilon_min low_epsilon_agent
   \<and> epsilon (low_epsilon_agent\<lparr>epsilon := 39999 / 4000000\<rparr>)
       \<noteq> max (epsilon_min low_epsilon_agent)
             (epsilon low_epsilon_agent * epsilon_decay low_epsilon_agent)"
  using replay_low_epsilon_agent by (simp add: low_epsilon_agent_parameters)

section \<open>Concrete runs\<close>

lemma isqrt_4: "isqrt 4 = 2" by code_simp
lemma isqrt_5: "isqrt 5 = 2" by code_simp

lemma upt_0_2: "[0..<2] = [0, Suc 0]" by code_simp

lemma env_init_grid_env: "env_init (10, 10) 4 = Inr grid_env"
  by (simp add: env_init_def initialize_intersections_def isqrt_4 linspace_int_def upt_0_2
      grid_env_def Let_def)

lemma arrive_const_4:
  "tf = 3 / 10 \<Longrightarrow> arrive tf x (const_draws 4, k)
     = (x\<lparr>queue_ns := min 30 (queue_ns x + 2), queue_ew := min 30 (queue_ew x + 2)\<rparr>,
        (const_draws 4, k + 5))"
  by (simp add: arrive_def random_float_def randint_def draw_def const_draws_def Let_def)

lemmas step_eval = step_def update_traffic_flow_def py_fmod_def traffic_factor_def
    grid_env_def new_intersection_def process_intersection_def apply_action_def traffic_flow_def
    randint_def draw_def const_draws_def Let_def reward_of_def info_of_def


section \<open>Queues stay within their bounds\<close>

lemma randint_range:
  assumes "lo < hi" and "randint lo hi g = (r, g')"
  shows "lo \<le> r \<and> r < hi"
proof -
  obtain k where "r = lo + int k mod (hi - lo)"
    using assms(2) by (auto simp: randint_def split: prod.splits)
  moreover have "0 \<le> int k mod (hi - lo)" "int k mod (hi - lo) < hi - lo"
    using assms(1) by simp_all
  ultimately show ?thesis by linarith
qed

lemma randint_0_3: "randint 0 3 g = (r, g') \<Longrightarrow> 0 \<le> r \<and> r < 3"
  by (rule randint_range) simp_all

lemma randint_1_4: "randint 1 4 g = (r, g') \<Longrightarrow> 1 \<le> r \<and> r < 4"
  by (rule randint_range) simp_all

lemma reset_intersections_ok:
  "reset_intersections xs g = (ys, g') \<Longrightarrow> list_all (\<lambda>(i, x). queue_ok x) ys"
proof (induction xs arbitrary: g ys g')
  case Nil
  then show ?case by simp
next
  case (Cons p xs)
  obtain i x where p: "p = (i, x)" by (cases p)
  obtain a g1 where a: "randint 0 10 g = (a, g1)" by (cases "randint 0 10 g")
  obtain b g2 where b: "randint 0 10 g1 = (b, g2)" by (cases "randint 0 10 g1")
  obtain rest g3 where r: "reset_intersections xs g2 = (rest, g3)"
    by (cases "reset_intersections xs g2")
  from randint_range[OF _ a] randint_range[OF _ b] have "0 \<le> a \<and> a < 10" "0 \<le> b \<and> b < 10"
    by simp_all
  moreover from Cons.prems have "ys = (i, x\<lparr>queue_ns := a, queue_ew := b, current_phase := 0, time_in_phase := 0\<rparr>) # rest"
    by (simp add: p a b r)
  ultimately show ?case using Cons.IH[OF r] by (simp add: queue_ok_def)
qed

lemma arrival_ns_ok:
  "queue_ok x \<Longrightarrow> randint 1 4 g = (n, g') \<Longrightarrow> queue_ok (x\<lparr>queue_ns := min 30 (queue_ns x + n)\<rparr>)"
  by (drule randint_1_4) (simp add: queue_ok_def)

lemma arrival_ew_ok:
  "queue_ok x \<Longrightarrow> randint 1 4 g = (n, g') \<Longrightarrow> queue_ok (x\<lparr>queue_ew := min 30 (queue_ew x + n)\<rparr>)"
  by (drule randint_1_4) (simp add: queue_ok_def)

lemma arrive_ok:
  assumes "arrive tf x g = (x', g')" and "queue_ok x"
  shows "queue_ok x'"
proof -
  obtain u0 g1 where u0: "random_float g = (u0, g1)" by (cases "random_float g")
  obtain u1 g2 where u1: "random_float g1 = (u1, g2)" by (cases "random_float g1")
  let ?c1 = "u1 < 4 / 10 * tf * (1 / 2 + u0)"
  obtain x1 g3 where s1: "(if ?c1
            then (case randint 1 4 g2 of (n, g') \<Rightarrow>
                    (x\<lparr>queue_ns := min 30 (queue_ns x + n)\<rparr>, g'))
            else (x, g2)) = (x1, g3)"
    by (cases "(if ?c1
            then (case randint 1 4 g2 of (n, g') \<Rightarrow>
                    (x\<lparr>queue_ns := min 30 (queue_ns x + n)\<rparr>, g'))
            else (x, g2))")
  have ok1: "queue_ok x1"
    using s1 assms(2) by (auto split: if_splits prod.splits intro: arrival_ns_ok)
  obtain u2 g4 where u2: "random_float g3 = (u2, g4)" by (cases "random_float g3")
  have "(x', g') = (if u2 < 4 / 10 * tf * (1 / 2 + u0)
        then (case randint 1 4 g4 of (n, g') \<Rightarrow>
                (x1\<lparr>queue_ew := min 30 (queue_ew x1 + n)\<rparr>, g'))
        else (x1, g4))"
    using assms(1) unfolding arrive_def u0 u1 Let_def prod.case s1 u2 by simp
  then show ?thesis
    using ok1 by (auto split: if_splits prod.splits intro: arrival_ew_ok)
qed

lemma arrivals_ok:
  "arrivals tf xs g = (ys, g') \<Longrightarrow> list_all (\<lambda>(i, x). queue_ok x) xs
     \<Longrightarrow> list_all (\<lambda>(i, x). queue_ok x) ys"
proof (induction xs arbitrary: g ys g')
  case Nil
  then show ?case by simp
next
  case (Cons p xs)
  obtain i x where p: "p = (i, x)" by (cases p)
  obtain x' g1 where a: "arrive tf x g = (x', g1)" by (cases "arrive tf x g")
  obtain rest g2 where r: "arrivals tf xs g1 = (rest, g2)" by (cases "arrivals tf xs g1")
  from Cons.prems(2) have okx: "queue_ok x" and okxs: "list_all (\<lambda>(i, x). queue_ok x) xs"
    by (simp_all add: p)
  from Cons.prems(1) have ys: "ys = (i, x') # rest" by (simp add: p a r)
  from Cons.IH[OF r okxs] arrive_ok[OF a okx] show ?case by (simp add: ys)
qed

lemma apply_action_queues:
  "queue_ns (apply_action a x) = queue_ns x \<and> queue_ew (apply_action a x) = queue_ew x"
  by (simp add: apply_action_def)

lemma traffic_flow_ok:
  assumes "traffic_flow x g = (x', g')" and "queue_ok x"
  shows "queue_ok x'"
proof -
  obtain r1 g1 where r1: "randint 0 3 g = (r1, g1)" by (cases "randint 0 3 g")
  obtain r2 g2 where r2: "randint 0 3 g1 = (r2, g2)" by (cases "randint 0 3 g1")
  from randint_0_3[OF r1] randint_0_3[OF r2] have b: "0 \<le> r1" "0 \<le> r2" by simp_all
  show ?thesis
  proof (cases "current_phase x = 0")
    case True
    with assms(1) have "x' = x\<lparr>queue_ns := max 0 (queue_ns x - min (3 + r1) (queue_ns x)),
                                 queue_ew := min 30 (queue_ew x + r2)\<rparr>"
      by (simp add: traffic_flow_def r1 r2 Let_def)
    with assms(2) b show ?thesis by (simp add: queue_ok_def min_def max_def)
  next
    case False
    with assms(1) have "x' = x\<lparr>queue_ew := max 0 (queue_ew x - min (3 + r1) (queue_ew x)),
                                 queue_ns := min 30 (queue_ns x + r2)\<rparr>"
      by (simp add: traffic_flow_def r1 r2 Let_def)
    with assms(2) b show ?thesis by (simp add: queue_ok_def min_def max_def)
  qed
qed

lemma process_intersection_ok:
  assumes "process_intersection a x g = (x', r, n, g')" and "queue_ok x"
  shows "queue_ok x'"
proof -
  obtain x2 g2 where tf: "traffic_flow (apply_action a x) g = (x2, g2)"
    by (cases "traffic_flow (apply_action a x) g")
  have "queue_ok (apply_action a x)"
    using assms(2) by (simp add: queue_ok_def apply_action_queues)
  then have "queue_ok x2" using traffic_flow_ok[OF tf] by simp
  moreover have "x' = x2\<lparr>time_in_phase := time_in_phase x2 + 1\<rparr>"
    using assms(1) by (simp add: process_intersection_def Let_def tf)
  ultimately show ?thesis by (simp add: queue_ok_def)
qed

lemma list_all_update:
  "list_all (\<lambda>(i, x). P x) xs \<Longrightarrow> P v \<Longrightarrow> list_all (\<lambda>(i, x). P x) (AList.update k v xs)"
  by (induction xs) auto

lemma list_all_map_of:
  "list_all (\<lambda>(i, x). P x) xs \<Longrightarrow> map_of xs k = Some v \<Longrightarrow> P v"
  by (induction xs) (auto split: if_splits)

lemma process_actions_ok:
  "process_actions acts xs rw info g = (ys, rw', info', g') \<Longrightarrow>
   list_all (\<lambda>(i, x). queue_ok x) xs \<Longrightarrow> list_all (\<lambda>(i, x). queue_ok x) ys"
proof (induction acts arbitrary: xs rw info g)
  case Nil
  then show ?case by simp
next
  case (Cons p acts)
  obtain i a where p: "p = (i, a)" by (cases p)
  show ?case
  proof (cases "map_of xs i")
    case None
    with Cons show ?thesis by (simp add: p)
  next
    case (Some x)
    obtain x' r n g1 where pi: "process_intersection a x g = (x', r, n, g1)"
      by (cases "process_intersection a x g") auto
    have "queue_ok x" using list_all_map_of[OF Cons.prems(2) Some] .
    then have "queue_ok x'" using process_intersection_ok[OF pi] by simp
    then have ok: "list_all (\<lambda>(i, x). queue_ok x) (AList.update i x' xs)"
      using Cons.prems(2) by (rule list_all_update[rotated])
    from Cons.prems(1) have
      "process_actions acts (AList.update i x' xs) (rw(i \<mapsto> r)) (info(i \<mapsto> n)) g1 = (ys, rw', info', g')"
      by (simp add: p Some pi)
    from Cons.IH[OF this ok] show ?thesis .
  qed
qed

lemma step_ok:
  assumes "step e actions g = (res, e', g')" and "queues_in_range e"
  shows "queues_in_range e'"
proof -
  let ?e1 = "e\<lparr>current_step := current_step e + 1,
                 current_time := py_fmod (current_time e + 5 / 60) 24\<rparr>"
  obtain xs1 g1 where a: "arrivals (traffic_factor (current_time ?e1)) (intersections ?e1) g = (xs1, g1)"
    by (cases "arrivals (traffic_factor (current_time ?e1)) (intersections ?e1) g")
  obtain xs rw info g2 where pa: "process_actions actions xs1 Map.empty Map.empty g1 = (xs, rw, info, g2)"
    by (cases "process_actions actions xs1 Map.empty Map.empty g1") auto
  have "list_all (\<lambda>(i, x). queue_ok x) xs1"
    using arrivals_ok[OF a] assms(2) by (simp add: queues_in_range_def)
  then have "list_all (\<lambda>(i, x). queue_ok x) xs" using process_actions_ok[OF pa] by simp
  moreover have "intersections e' = xs"
    using assms(1) a pa by (auto simp: step_def update_traffic_flow_def Let_def)
  ultimately show ?thesis by (simp add: queues_in_range_def)
qed

lemma reset_ok:
  assumes "reset e g = (obs, e', g')"
  shows "queues_in_range e'"
proof -
  obtain xs g1 where r: "reset_intersections (intersections e) g = (xs, g1)"
    by (cases "reset_intersections (intersections e) g")
  with assms have "intersections e' = xs" by (auto simp: reset_def Let_def)
  with reset_intersections_ok[OF r] show ?thesis by (simp add: queues_in_range_def)
qed

lemma run_ok: "queues_in_range e \<Longrightarrow> queues_in_range (fst (run cs e g))"
proof (induction cs arbitrary: e g)
  case Nil
  then show ?case by simp
next
  case (Cons c cs)
  show ?case
  proof (cases c)
    case Reset
    obtain obs e' g' where r: "reset e g = (obs, e', g')" by (cases "reset e g") auto
    from Cons.IH[OF reset_ok[OF r]] show ?thesis by (simp add: Reset r)
  next
    case (Step actions)
    obtain res e' g' where s: "step e actions g = (res, e', g')" by (cases "step e actions g") auto
    from Cons.IH[OF step_ok[OF s Cons.prems]] show ?thesis by (simp add: Step s)
  qed
qed

lemma initialize_intersections_ok:
  "initialize_intersections gsize n = Inr xs \<Longrightarrow> list_all (\<lambda>(i, x). queue_ok x) xs"
  by (auto simp: initialize_intersections_def Let_def list_all_iff queue_ok_def
      new_intersection_def split: if_splits)

text \<open>
  Claim C5. Whatever sequence of \<^verbatim>\<open>reset\<close> and \<^verbatim>\<open>step\<close> calls (with any action
  dictionaries and any random draws) follows the construction of an environment, both
  queues of every intersection are between 0 and 30.
\<close>

theorem queues_always_in_range:
  assumes "env_init gsize n = Inr e"
  shows "queues_in_range (fst (run cs e g))"
proof -
  from assms have "queues_in_range e"
    by (auto simp: env_init_def queues_in_range_def split: sum.splits
        dest: initialize_intersections_ok)
  then show ?thesis by (rule run_ok)
qed

theorem queues_always_in_range_witness:
  "env_init (10, 10) 4 = Inr grid_env
   \<and> queues_in_range
        (fst (run [Reset, Step [(0, 1), (2, 3)], Step [(1, 2)]] grid_env (const_draws 4, 0)))"
  by (rule conjI [OF env_init_grid_env queues_always_in_range [OF env_init_grid_env]])

section \<open>Placement of the intersections\<close>

lemma isqrt_bounds: "isqrt n * isqrt n \<le> n \<and> n < Suc (isqrt n) * Suc (isqrt n)"
proof (induction n)
  case 0
  then show ?case by simp
next
  case (Suc n)
  then show ?case by (auto simp: Let_def)
qed

lemma isqrt_floor_sqrt: "isqrt n = nat \<lfloor>sqrt (real n)\<rfloor>"
proof -
  let ?r = "isqrt n"
  have lo: "real ?r \<le> sqrt (real n)"
  proof (rule real_le_rsqrt)
    have "real (?r * ?r) \<le> real n" using isqrt_bounds[of n] by (simp only: of_nat_le_iff)
    then show "(real ?r)\<^sup>2 \<le> real n" by (simp add: power2_eq_square)
  qed
  have hi: "sqrt (real n) < real ?r + 1"
  proof (rule real_less_lsqrt)
    show "0 \<le> real ?r + 1" by simp
    have "real n < real (Suc ?r * Suc ?r)" using isqrt_bounds[of n] by (simp only: of_nat_less_iff)
    then show "real n < (real ?r + 1)\<^sup>2" by (simp add: power2_eq_square algebra_simps)
  qed
  have "\<lfloor>sqrt (real n)\<rfloor> = int ?r"
    by (rule floor_unique) (use lo hi in simp_all)
  then show ?thesis by simp
qed

lemma isqrt_square_iff: "isqrt n * isqrt n = n \<longleftrightarrow> (\<exists>m. n = m * m)"
proof
  assume "isqrt n * isqrt n = n"
  then show "\<exists>m. n = m * m" by metis
next
  assume "\<exists>m. n = m * m"
  then obtain m where m: "n = m * m" ..
  have "\<not> m < isqrt n"
  proof
    assume "m < isqrt n"
    then have "Suc m * Suc m \<le> isqrt n * isqrt n" by (intro mult_le_mono) simp_all
    with isqrt_bounds[of n] m show False by simp
  qed
  moreover have "\<not> isqrt n < m"
  proof
    assume "isqrt n < m"
    then have "Suc (isqrt n) * Suc (isqrt n) \<le> m * m" by (intro mult_le_mono) simp_all
    with isqrt_bounds[of n] m show False by simp
  qed
  ultimately have "isqrt n = m" by simp
  with m show "isqrt n * isqrt n = n" by simp
qed

lemma length_linspace_int: "length (linspace_int stop num) = num"
  by (simp add: linspace_int_def)

lemma length_cells:
  "length (concat (map (\<lambda>r. map (\<lambda>c. (r, c)) cs) rs)) = length rs * length cs"
  by (induction rs) simp_all

lemma map_fst_enumerate_ids:
  "map fst (map (\<lambda>(i, p). (int i, f p)) (enumerate k cells)) = map int [k..<k + length cells]"
proof -
  have "map fst (map (\<lambda>(i, p). (int i, f p)) ys) = map int (map fst ys)" for ys
    by (induction ys) auto
  then show ?thesis by (simp only: map_fst_enumerate)
qed

text \<open>
  Claim C10. For a non-negative \<open>n\<close>, \<^verbatim>\<open>_initialize_intersections\<close> creates exactly
  \<open>k * k\<close> intersections, \<open>k\<close> being the integer part of the square root of \<open>n\<close>, with
  the ids \<open>0, 1, ..., k * k - 1\<close> in this order. Their number is \<open>n\<close> exactly when \<open>n\<close>
  is a perfect square, and is smaller than \<open>n\<close> otherwise.
\<close>

theorem placement_creates_isqrt_squared:
  assumes "0 \<le> n"
  shows "\<exists>xs. initialize_intersections gsize n = Inr xs
          \<and> map fst xs = map int [0..<isqrt (nat n) * isqrt (nat n)]
          \<and> length xs = isqrt (nat n) * isqrt (nat n)
          \<and> isqrt (nat n) = nat \<lfloor>sqrt (real_of_int n)\<rfloor>
          \<and> (length xs = nat n \<longleftrightarrow> (\<exists>m. nat n = m * m))
          \<and> ((\<nexists>m. nat n = m * m) \<longrightarrow> length xs < nat n)"
proof -
  let ?k = "isqrt (nat n)"
  let ?cells = "concat (map (\<lambda>r. map (\<lambda>c. (r, c)) (linspace_int (snd gsize - 1) ?k))
                  (linspace_int (fst gsize - 1) ?k))"
  let ?xs = "map (\<lambda>(i, p). (int i, new_intersection p)) (enumerate 0 ?cells)"
  have init: "initialize_intersections gsize n = Inr ?xs"
    using assms by (simp add: initialize_intersections_def Let_def)
  have len_cells: "length ?cells = ?k * ?k"
    by (simp add: length_cells length_linspace_int)
  have ids: "map fst ?xs = map int [0..<?k * ?k]"
    using map_fst_enumerate_ids[of new_intersection 0 ?cells] len_cells by simp
  have len: "length ?xs = ?k * ?k" using len_cells by simp
  have fl: "?k = nat \<lfloor>sqrt (real_of_int n)\<rfloor>"
    using assms isqrt_floor_sqrt[of "nat n"] by simp
  have sq: "length ?xs = nat n \<longleftrightarrow> (\<exists>m. nat n = m * m)"
    unfolding len by (rule isqrt_square_iff)
  have fewer: "(\<nexists>m. nat n = m * m) \<longrightarrow> length ?xs < nat n"
    using sq isqrt_bounds[of "nat n"] unfolding len by (metis le_neq_implies_less)
  from init ids len fl sq fewer show ?thesis by blast
qed

lemma five_not_square: "\<nexists>m. nat 5 = m * m"
  using isqrt_square_iff[of 5] by (simp add: isqrt_5)

lemma upt_0_4: "[0..<4] = [0, 1, 2, 3]" by code_simp

theorem placement_creates_isqrt_squared_witness:
  "\<exists>xs. initialize_intersections (10, 10) 5 = Inr xs
      \<and> map fst xs = [0, 1, 2, 3] \<and> length xs = 4 \<and> length xs < nat 5"
proof -
  have h: "(0::int) \<le> 5" by simp
  from placement_creates_isqrt_squared [OF h, of "(10, 10)"] five_not_square
  obtain xs where "initialize_intersections (10, 10) 5 = Inr xs"
    and "map fst xs = map int [0..<isqrt (nat 5) * isqrt (nat 5)]"
    and "length xs = isqrt (nat 5) * isqrt (nat 5)"
    and "length xs < nat 5"
    by blast
  then show ?thesis by (simp add: isqrt_5 upt_0_4)
qed

section \<open>What a step touches\<close>

lemma arrivals_keys: "arrivals tf xs g = (ys, g') \<Longrightarrow> map fst ys = map fst xs"
proof (induction xs arbitrary: g ys g')
  case Nil
  then show ?case by simp
next
  case (Cons p xs)
  obtain i x where p: "p = (i, x)" by (cases p)
  obtain x' g1 where a: "arrive tf x g = (x', g1)" by (cases "arrive tf x g")
  obtain rest g2 where r: "arrivals tf xs g1 = (rest, g2)" by (cases "arrivals tf xs g1")
  from Cons.prems have "ys = (i, x') # rest" by (simp add: p a r)
  with Cons.IH[OF r] show ?case by (simp add: p)
qed

lemma update_known_keys: "map_of xs i = Some x \<Longrightarrow> map fst (AList.update i v xs) = map fst xs"
  by (simp add: update_keys map_of_eq_None_iff[symmetric] del: map_of_eq_None_iff)

lemma process_actions_spec:
  "process_actions acts xs rw info g = (ys, rw', info', g') \<Longrightarrow>
     map fst ys = map fst xs
   \<and> dom rw' = dom rw \<union> (fst ` set acts \<inter> fst ` set xs)
   \<and> dom info' = dom info \<union> (fst ` set acts \<inter> fst ` set xs)
   \<and> (\<forall>i. i \<notin> fst ` set acts \<longrightarrow> map_of ys i = map_of xs i \<and> rw' i = rw i \<and> info' i = info i)
   \<and> (entries_agree xs rw info \<longrightarrow> entries_agree ys rw' info')"
proof (induction acts arbitrary: xs rw info g)
  case Nil
  then show ?case by simp
next
  case (Cons p acts)
  obtain i a where p: "p = (i, a)" by (cases p)
  show ?case
  proof (cases "map_of xs i")
    case None
    then have notin: "i \<notin> fst ` set xs" by (simp add: map_of_eq_None_iff)
    from Cons.prems have "process_actions acts xs rw info g = (ys, rw', info', g')"
      by (simp add: p None)
    from Cons.IH[OF this] notin show ?thesis by (auto simp: p)
  next
    case (Some x)
    then have isin: "i \<in> fst ` set xs" by (metis map_of_eq_None_iff option.distinct(1))
    obtain x' r n g1 where pi: "process_intersection a x g = (x', r, n, g1)"
      by (cases "process_intersection a x g") auto
    have rn: "r = reward_of x'" "n = info_of x'"
      using pi by (auto simp: process_intersection_def Let_def split: prod.splits)
    let ?xs = "AList.update i x' xs"
    from Cons.prems have rec:
      "process_actions acts ?xs (rw(i \<mapsto> r)) (info(i \<mapsto> n)) g1 = (ys, rw', info', g')"
      by (simp add: p Some pi)
    have keys: "map fst ?xs = map fst xs" using Some by (rule update_known_keys)
    then have keyset: "fst ` set ?xs = fst ` set xs" by (metis set_map)
    have agree: "entries_agree xs rw info \<Longrightarrow> entries_agree ?xs (rw(i \<mapsto> r)) (info(i \<mapsto> n))"
      unfolding entries_agree_def by (auto simp: update_conv' rn split: option.splits)
    note ih0 = Cons.IH[OF rec]
    note ih = ih0[THEN conjunct1] ih0[THEN conjunct2, THEN conjunct1]
      ih0[THEN conjunct2, THEN conjunct2, THEN conjunct1]
      ih0[THEN conjunct2, THEN conjunct2, THEN conjunct2, THEN conjunct1]
      ih0[THEN conjunct2, THEN conjunct2, THEN conjunct2, THEN conjunct2]
    have 1: "map fst ys = map fst xs" using ih(1) keys by simp
    have d1: "dom (rw(i \<mapsto> r)) = insert i (dom rw)"
      and d2: "dom (info(i \<mapsto> n)) = insert i (dom info)"
      by simp_all
    have 2: "dom rw' = dom rw \<union> (fst ` set (p # acts) \<inter> fst ` set xs)"
    proof -
      from ih(2) have "dom rw' = insert i (dom rw) \<union> (fst ` set acts \<inter> fst ` set xs)"
        unfolding d1 keyset .
      with isin show ?thesis by (auto simp: p)
    qed
    have 3: "dom info' = dom info \<union> (fst ` set (p # acts) \<inter> fst ` set xs)"
    proof -
      from ih(3) have "dom info' = insert i (dom info) \<union> (fst ` set acts \<inter> fst ` set xs)"
        unfolding d2 keyset .
      with isin show ?thesis by (auto simp: p)
    qed
    have 4: "\<forall>j. j \<notin> fst ` set (p # acts) \<longrightarrow>
               map_of ys j = map_of xs j \<and> rw' j = rw j \<and> info' j = info j"
    proof (intro allI impI)
      fix j
      assume "j \<notin> fst ` set (p # acts)"
      then have ji: "j \<noteq> i" "j \<notin> fst ` set acts" by (auto simp: p)
      from ih(4) ji(2) have "map_of ys j = map_of ?xs j \<and> rw' j = (rw(i \<mapsto> r)) j
          \<and> info' j = (info(i \<mapsto> n)) j"
        by blast
      then show "map_of ys j = map_of xs j \<and> rw' j = rw j \<and> info' j = info j"
        using ji(1) by (simp add: update_conv')
    qed
    have 5: "entries_agree xs rw info \<longrightarrow> entries_agree ys rw' info'"
      using ih(5) agree by blast
    from 1 2 3 4 5 show ?thesis by blast
  qed
qed

lemma process_actions_skip_unknown:
  "process_actions (filter (\<lambda>(i, a). i \<in> fst ` set xs) acts) xs rw info g
     = process_actions acts xs rw info g"
proof (induction acts arbitrary: xs rw info g)
  case Nil
  then show ?case by simp
next
  case (Cons p acts)
  obtain i a where p: "p = (i, a)" by (cases p)
  show ?case
  proof (cases "map_of xs i")
    case None
    then have "i \<notin> fst ` set xs" by (simp add: map_of_eq_None_iff)
    with None Cons.IH show ?thesis by (simp add: p)
  next
    case (Some x)
    then have isin: "i \<in> fst ` set xs" by (metis map_of_eq_None_iff option.distinct(1))
    obtain x' r n g1 where pi: "process_intersection a x g = (x', r, n, g1)"
      by (cases "process_intersection a x g") auto
    have "map fst (AList.update i x' xs) = map fst xs" using Some by (rule update_known_keys)
    then have keyset: "fst ` set (AList.update i x' xs) = fst ` set xs" by (metis set_map)
    have "process_actions (filter (\<lambda>(k, a). k \<in> fst ` set (AList.update i x' xs)) acts)
            (AList.update i x' xs) (rw(i \<mapsto> r)) (info(i \<mapsto> n)) g1
          = process_actions acts (AList.update i x' xs) (rw(i \<mapsto> r)) (info(i \<mapsto> n)) g1"
      by (rule Cons.IH)
    moreover have "process_actions (p # acts) xs rw info g
          = process_actions acts (AList.update i x' xs) (rw(i \<mapsto> r)) (info(i \<mapsto> n)) g1"
      by (simp add: p Some pi)
    moreover have "process_actions (filter (\<lambda>(i, a). i \<in> fst ` set xs) (p # acts)) xs rw info g
          = process_actions (filter (\<lambda>(i, a). i \<in> fst ` set xs) acts)
              (AList.update i x' xs) (rw(i \<mapsto> r)) (info(i \<mapsto> n)) g1"
      using isin by (simp add: p Some pi)
    ultimately show ?thesis by (simp only: keyset)
  qed
qed

lemma process_actions_append:
  "process_actions (pre @ post) xs rw info g =
     (case process_actions pre xs rw info g of
        (ys, rw1, info1, g1) \<Rightarrow> process_actions post ys rw1 info1 g1)"
proof (induction pre arbitrary: xs rw info g)
  case Nil
  then show ?case by simp
next
  case (Cons p pre)
  obtain i a where p: "p = (i, a)" by (cases p)
  show ?case
  proof (cases "map_of xs i")
    case None
    with Cons.IH show ?thesis by (simp add: p)
  next
    case (Some x)
    obtain x' r n g1 where pi: "process_intersection a x g = (x', r, n, g1)"
      by (cases "process_intersection a x g") auto
    show ?thesis
      using Cons.IH[of "AList.update i x' xs" "rw(i \<mapsto> r)" "info(i \<mapsto> n)" g1]
      by (simp only: p append_Cons process_actions.simps Some option.case pi prod.case)
  qed
qed

lemma process_intersection_fields:
  assumes "process_intersection a x g = (x', r, n, g')"
  shows "\<exists>r1 g1 r2.
           randint 0 3 g = (r1, g1) \<and> randint 0 3 g1 = (r2, g')
         \<and> position x' = position x
         \<and> current_phase x' = (if a = 1 then 1 - current_phase x
                                else if a = 2 then 0 else if a = 3 then 1 else current_phase x)
         \<and> time_in_phase x' =
              (if a = 1 \<or> (a = 2 \<and> current_phase x \<noteq> 0) \<or> (a = 3 \<and> current_phase x \<noteq> 1)
               then 0 else time_in_phase x) + 1
         \<and> (current_phase x' = 0 \<longrightarrow>
               queue_ns x' = max 0 (queue_ns x - min (3 + r1) (queue_ns x))
             \<and> queue_ew x' = min 30 (queue_ew x + r2))
         \<and> (current_phase x' \<noteq> 0 \<longrightarrow>
               queue_ew x' = max 0 (queue_ew x - min (3 + r1) (queue_ew x))
             \<and> queue_ns x' = min 30 (queue_ns x + r2))
         \<and> r = - (queue_ns x' + queue_ew x' + (if time_in_phase x' = 0 then 3 else 0))
         \<and> n = \<lparr>info_queue_ns = queue_ns x', info_queue_ew = queue_ew x',
                 info_phase = current_phase x', info_time_in_phase = time_in_phase x'\<rparr>"
proof -
  let ?y = "apply_action a x"
  obtain r1 g1 where r1: "randint 0 3 g = (r1, g1)" by (cases "randint 0 3 g")
  obtain r2 g2 where r2: "randint 0 3 g1 = (r2, g2)" by (cases "randint 0 3 g1")
  have y: "position ?y = position x" "queue_ns ?y = queue_ns x" "queue_ew ?y = queue_ew x"
    "current_phase ?y = (if a = 1 then 1 - current_phase x
                          else if a = 2 then 0 else if a = 3 then 1 else current_phase x)"
    "time_in_phase ?y =
       (if a = 1 \<or> (a = 2 \<and> current_phase x \<noteq> 0) \<or> (a = 3 \<and> current_phase x \<noteq> 1)
        then 0 else time_in_phase x)"
    by (auto simp: apply_action_def)
  show ?thesis
  proof (cases "current_phase ?y = 0")
    case True
    then have tf: "traffic_flow ?y g =
        (?y\<lparr>queue_ns := max 0 (queue_ns ?y - min (3 + r1) (queue_ns ?y)),
             queue_ew := min 30 (queue_ew ?y + r2)\<rparr>, g2)"
      by (simp add: traffic_flow_def r1 r2 Let_def)
    from assms have
      x': "x' = ?y\<lparr>queue_ns := max 0 (queue_ns ?y - min (3 + r1) (queue_ns ?y)),
                   queue_ew := min 30 (queue_ew ?y + r2),
                   time_in_phase := time_in_phase ?y + 1\<rparr>"
      and rest: "r = reward_of x'" "n = info_of x'" "g' = g2"
      unfolding process_intersection_def Let_def tf prod.case by auto
    have f: "position x' = position ?y" "current_phase x' = current_phase ?y"
      "time_in_phase x' = time_in_phase ?y + 1"
      "queue_ns x' = max 0 (queue_ns ?y - min (3 + r1) (queue_ns ?y))"
      "queue_ew x' = min 30 (queue_ew ?y + r2)"
      by (simp_all add: x')
    show ?thesis
      using r1 r2 True unfolding rest(1,2,3) f y reward_of_def info_of_def Let_def
      by (intro exI[of _ r1] exI[of _ g1] exI[of _ r2]) (simp add: f y)
  next
    case False
    then have tf: "traffic_flow ?y g =
        (?y\<lparr>queue_ew := max 0 (queue_ew ?y - min (3 + r1) (queue_ew ?y)),
             queue_ns := min 30 (queue_ns ?y + r2)\<rparr>, g2)"
      by (simp add: traffic_flow_def r1 r2 Let_def)
    from assms have
      x': "x' = ?y\<lparr>queue_ew := max 0 (queue_ew ?y - min (3 + r1) (queue_ew ?y)),
                   queue_ns := min 30 (queue_ns ?y + r2),
                   time_in_phase := time_in_phase ?y + 1\<rparr>"
      and rest: "r = reward_of x'" "n = info_of x'" "g' = g2"
      unfolding process_intersection_def Let_def tf prod.case by auto
    have f: "position x' = position ?y" "current_phase x' = current_phase ?y"
      "time_in_phase x' = time_in_phase ?y + 1"
      "queue_ew x' = max 0 (queue_ew ?y - min (3 + r1) (queue_ew ?y))"
      "queue_ns x' = min 30 (queue_ns ?y + r2)"
      by (simp_all add: x')
    show ?thesis
      using r1 r2 False unfolding rest(1,2,3) f y reward_of_def info_of_def Let_def
      by (intro exI[of _ r1] exI[of _ g1] exI[of _ r2]) (simp add: f y)
  qed
qed

text \<open>
  Claim C9. A step processes exactly the ids that are both in the action dictionary
  and in the environment: these and no others get a reward and an info entry, each read
  from the intersection as the step leaves it. An id of the action dictionary that the
  environment does not have changes nothing at all: dropping it from the dictionary
  gives the same result, the same environment and the same generator. The step
  neither adds nor removes intersections, and an intersection without a supplied action
  ends as it does in the step with no actions, where the intersections are those the
  arrival process produces at the new time.

  A listed id of the environment is processed as follows. Let \<open>(i, a)\<close> be the entry of
  \<open>i\<close> in the action dictionary, \<open>pre\<close> the entries before it, and \<open>x\<close> the intersection
  \<open>i\<close> when its turn comes, that is, after the arrivals and the processing of \<open>pre\<close>.
  The processing takes two draws \<open>r1\<close> and \<open>r2\<close> of \<^verbatim>\<open>randint(0, 3)\<close> from the generator
  as \<open>pre\<close> left it. The intersection ends with the phase the action selects (1 toggles,
  2 and 3 force phase 0 and 1, any other code keeps it), with the timer reset if the
  action is 1 or forced a change and then incremented, with the green queue reduced
  by \<open>min (3 + r1) queue\<close> and the red queue grown by \<open>r2\<close> up to 30, at an unchanged
  position; the reward entry is the negated sum of the final queues and of 3 if the
  final timer is 0, and the info entry holds the final queues, phase and timer.
\<close>

theorem step_processes_supplied_known_ids:
  assumes "step e actions g = (res, e', g')"
  shows "dom (rewards_of res) = fst ` set actions \<inter> fst ` set (intersections e)
       \<and> dom (info_map res) = fst ` set actions \<inter> fst ` set (intersections e)
       \<and> entries_agree (intersections e') (rewards_of res) (info_map res)
       \<and> map fst (intersections e') = map fst (intersections e)
       \<and> step e (filter (\<lambda>(i, a). i \<in> fst ` set (intersections e)) actions) g = (res, e', g')
       \<and> (\<forall>i. i \<notin> fst ` set actions \<longrightarrow>
             map_of (intersections e') i = map_of (intersections (fst (snd (step e [] g)))) i)
       \<and> intersections (fst (snd (step e [] g)))
           = fst (arrivals (traffic_factor (current_time e')) (intersections e) g)
       \<and> (\<forall>pre i a post x.
             actions = pre @ (i, a) # post \<longrightarrow> i \<notin> fst ` set post \<longrightarrow>
             map_of (intersections (fst (snd (step e pre g)))) i = Some x \<longrightarrow>
             (\<exists>r1 g1 r2 g2 x'.
                randint 0 3 (snd (snd (step e pre g))) = (r1, g1) \<and> randint 0 3 g1 = (r2, g2)
              \<and> snd (snd (step e (pre @ [(i, a)]) g)) = g2
              \<and> map_of (intersections e') i = Some x'
              \<and> position x' = position x
              \<and> current_phase x' = (if a = 1 then 1 - current_phase x
                                     else if a = 2 then 0 else if a = 3 then 1
                                     else current_phase x)
              \<and> time_in_phase x' =
                   (if a = 1 \<or> (a = 2 \<and> current_phase x \<noteq> 0) \<or> (a = 3 \<and> current_phase x \<noteq> 1)
                    then 0 else time_in_phase x) + 1
              \<and> (current_phase x' = 0 \<longrightarrow>
                    queue_ns x' = max 0 (queue_ns x - min (3 + r1) (queue_ns x))
                  \<and> queue_ew x' = min 30 (queue_ew x + r2))
              \<and> (current_phase x' \<noteq> 0 \<longrightarrow>
                    queue_ew x' = max 0 (queue_ew x - min (3 + r1) (queue_ew x))
                  \<and> queue_ns x' = min 30 (queue_ns x + r2))
              \<and> rewards_of res i
                   = Some (- (queue_ns x' + queue_ew x' + (if time_in_phase x' = 0 then 3 else 0)))
              \<and> info_map res i
                   = Some \<lparr>info_queue_ns = queue_ns x', info_queue_ew = queue_ew x',
                           info_phase = current_phase x',
                           info_time_in_phase = time_in_phase x'\<rparr>))"
proof -
  let ?e1 = "e\<lparr>current_step := current_step e + 1,
                 current_time := py_fmod (current_time e + 5 / 60) 24\<rparr>"
  let ?tf = "traffic_factor (py_fmod (current_time e + 5 / 60) 24)"
  obtain xs1 g1 where a: "arrivals ?tf (intersections e) g = (xs1, g1)"
    by (cases "arrivals ?tf (intersections e) g")
  obtain xs rw info g2 where
    pa: "process_actions actions xs1 Map.empty Map.empty g1 = (xs, rw, info, g2)"
    by (cases "process_actions actions xs1 Map.empty Map.empty g1") auto
  have st: "step e acts g =
      (case process_actions acts xs1 Map.empty Map.empty g1 of
         (ys, rewards, nfo, h) \<Rightarrow>
           (\<lparr>next_state = get_state (?e1\<lparr>intersections := ys\<rparr>), rewards_of = rewards,
             done_flag = (max_steps e \<le> current_step e + 1), info_map = nfo\<rparr>,
            ?e1\<lparr>intersections := ys\<rparr>, h))" for acts
    using a by (simp add: step_def update_traffic_flow_def Let_def split: prod.splits)
  have res: "rewards_of res = rw" "info_map res = info" "intersections e' = xs"
    and clock: "current_time e' = py_fmod (current_time e + 5 / 60) 24"
    using assms by (auto simp: st pa)
  have keys1: "map fst xs1 = map fst (intersections e)" using a by (rule arrivals_keys)
  then have keyset1: "fst ` set xs1 = fst ` set (intersections e)" by (metis set_map)
  note spec0 = process_actions_spec[OF pa]
  have k: "map fst xs = map fst xs1" using spec0 by blast
  have d1: "dom rw = fst ` set actions \<inter> fst ` set xs1" using spec0 by simp
  have d2: "dom info = fst ` set actions \<inter> fst ` set xs1" using spec0 by simp
  have fr: "\<forall>i. i \<notin> fst ` set actions \<longrightarrow> map_of xs i = map_of xs1 i" using spec0 by blast
  have "entries_agree xs1 Map.empty Map.empty" by (simp add: entries_agree_def)
  then have ag: "entries_agree xs rw info" using spec0 by blast
  have empty: "intersections (fst (snd (step e [] g))) = xs1" by (simp add: st)
  have skip: "step e (filter (\<lambda>(i, a). i \<in> fst ` set (intersections e)) actions) g
                = step e actions g"
    unfolding st keyset1[symmetric] by (simp only: process_actions_skip_unknown)
  have listed: "\<exists>r1 h1 r2 h2 x'.
                randint 0 3 (snd (snd (step e pre g))) = (r1, h1) \<and> randint 0 3 h1 = (r2, h2)
              \<and> snd (snd (step e (pre @ [(i, c)]) g)) = h2
              \<and> map_of xs i = Some x'
              \<and> position x' = position x
              \<and> current_phase x' = (if c = 1 then 1 - current_phase x
                                     else if c = 2 then 0 else if c = 3 then 1
                                     else current_phase x)
              \<and> time_in_phase x' =
                   (if c = 1 \<or> (c = 2 \<and> current_phase x \<noteq> 0) \<or> (c = 3 \<and> current_phase x \<noteq> 1)
                    then 0 else time_in_phase x) + 1
              \<and> (current_phase x' = 0 \<longrightarrow>
                    queue_ns x' = max 0 (queue_ns x - min (3 + r1) (queue_ns x))
                  \<and> queue_ew x' = min 30 (queue_ew x + r2))
              \<and> (current_phase x' \<noteq> 0 \<longrightarrow>
                    queue_ew x' = max 0 (queue_ew x - min (3 + r1) (queue_ew x))
                  \<and> queue_ns x' = min 30 (queue_ns x + r2))
              \<and> rw i
                   = Some (- (queue_ns x' + queue_ew x' + (if time_in_phase x' = 0 then 3 else 0)))
              \<and> info i
                   = Some \<lparr>info_queue_ns = queue_ns x', info_queue_ew = queue_ew x',
                           info_phase = current_phase x',
                           info_time_in_phase = time_in_phase x'\<rparr>"
    if split: "actions = pre @ (i, c) # post" and last: "i \<notin> fst ` set post"
      and known: "map_of (intersections (fst (snd (step e pre g)))) i = Some x"
    for pre i c post x
  proof -
    obtain ys rw0 info0 h0 where
      p0: "process_actions pre xs1 Map.empty Map.empty g1 = (ys, rw0, info0, h0)"
      by (cases "process_actions pre xs1 Map.empty Map.empty g1") auto
    have pre_env: "intersections (fst (snd (step e pre g))) = ys"
      and pre_gen: "snd (snd (step e pre g)) = h0"
      by (simp_all add: st p0)
    from known have x: "map_of ys i = Some x" by (simp only: pre_env)
    obtain x' r n h2 where pi: "process_intersection c x h0 = (x', r, n, h2)"
      by (cases "process_intersection c x h0") auto
    have one: "process_actions (pre @ [(i, c)]) xs1 Map.empty Map.empty g1
                 = (AList.update i x' ys, rw0(i \<mapsto> r), info0(i \<mapsto> n), h2)"
      by (simp add: process_actions_append p0 x pi)
    have gen: "snd (snd (step e (pre @ [(i, c)]) g)) = h2"
      by (simp add: st one)
    have "process_actions ((pre @ [(i, c)]) @ post) xs1 Map.empty Map.empty g1
            = process_actions post (AList.update i x' ys) (rw0(i \<mapsto> r)) (info0(i \<mapsto> n)) h2"
      unfolding process_actions_append[of "pre @ [(i, c)]" post] one by simp
    moreover have "actions = (pre @ [(i, c)]) @ post" using split by simp
    ultimately have "process_actions post (AList.update i x' ys) (rw0(i \<mapsto> r))
                       (info0(i \<mapsto> n)) h2 = (xs, rw, info, g2)"
      using pa by (simp only:)
    from process_actions_spec[OF this] last have
      "map_of xs i = map_of (AList.update i x' ys) i" "rw i = (rw0(i \<mapsto> r)) i"
      "info i = (info0(i \<mapsto> n)) i"
      by blast+
    then have fin: "map_of xs i = Some x'" "rw i = Some r" "info i = Some n"
      by (simp_all add: update_conv')
    from process_intersection_fields[OF pi] fin gen show ?thesis
      unfolding pre_gen by blast
  qed
  have all_listed: "\<forall>pre i a post x.
             actions = pre @ (i, a) # post \<longrightarrow> i \<notin> fst ` set post \<longrightarrow>
             map_of (intersections (fst (snd (step e pre g)))) i = Some x \<longrightarrow>
             (\<exists>r1 g1 r2 g2 x'.
                randint 0 3 (snd (snd (step e pre g))) = (r1, g1) \<and> randint 0 3 g1 = (r2, g2)
              \<and> snd (snd (step e (pre @ [(i, a)]) g)) = g2
              \<and> map_of (intersections e') i = Some x'
              \<and> position x' = position x
              \<and> current_phase x' = (if a = 1 then 1 - current_phase x
                                     else if a = 2 then 0 else if a = 3 then 1
                                     else current_phase x)
              \<and> time_in_phase x' =
                   (if a = 1 \<or> (a = 2 \<and> current_phase x \<noteq> 0) \<or> (a = 3 \<and> current_phase x \<noteq> 1)
                    then 0 else time_in_phase x) + 1
              \<and> (current_phase x' = 0 \<longrightarrow>
                    queue_ns x' = max 0 (queue_ns x - min (3 + r1) (queue_ns x))
                  \<and> queue_ew x' = min 30 (queue_ew x + r2))
              \<and> (current_phase x' \<noteq> 0 \<longrightarrow>
                    queue_ew x' = max 0 (queue_ew x - min (3 + r1) (queue_ew x))
                  \<and> queue_ns x' = min 30 (queue_ns x + r2))
              \<and> rewards_of res i
                   = Some (- (queue_ns x' + queue_ew x' + (if time_in_phase x' = 0 then 3 else 0)))
              \<and> info_map res i
                   = Some \<lparr>info_queue_ns = queue_ns x', info_queue_ew = queue_ew x',
                           info_phase = current_phase x',
                           info_time_in_phase = time_in_phase x'\<rparr>)"
    unfolding res using listed by blast
  have first: "dom (rewards_of res) = fst ` set actions \<inter> fst ` set (intersections e)
       \<and> dom (info_map res) = fst ` set actions \<inter> fst ` set (intersections e)
       \<and> entries_agree (intersections e') (rewards_of res) (info_map res)
       \<and> map fst (intersections e') = map fst (intersections e)
       \<and> step e (filter (\<lambda>(i, a). i \<in> fst ` set (intersections e)) actions) g = (res, e', g')
       \<and> (\<forall>i. i \<notin> fst ` set actions \<longrightarrow>
             map_of (intersections e') i = map_of (intersections (fst (snd (step e [] g)))) i)
       \<and> intersections (fst (snd (step e [] g)))
           = fst (arrivals (traffic_factor (current_time e')) (intersections e) g)"
    using res k keys1 d1 d2 fr ag empty skip assms a
    by (simp add: keyset1 clock)
  from conjI[OF first all_listed] show ?thesis unfolding conj_assoc .
qed

lemma step_grid_env_no_actions:
  "intersections (fst (snd (step grid_env [] (const_draws 4, 0))))
     = [(0, \<lparr>position = (0, 0), queue_ns = 2, queue_ew = 2, current_phase = 0, time_in_phase = 0\<rparr>),
        (1, \<lparr>position = (0, 9), queue_ns = 2, queue_ew = 2, current_phase = 0, time_in_phase = 0\<rparr>),
        (2, \<lparr>position = (9, 0), queue_ns = 2, queue_ew = 2, current_phase = 0, time_in_phase = 0\<rparr>),
        (3, \<lparr>position = (9, 9), queue_ns = 2, queue_ew = 2, current_phase = 0, time_in_phase = 0\<rparr>)]
   \<and> snd (snd (step grid_env [] (const_draws 4, 0))) = (const_draws 4, 20)"
  by (simp add: step_eval arrive_const_4)

lemma randint_0_3_const_4: "randint 0 3 (const_draws 4, k) = (1, (const_draws 4, Suc k))"
  by (simp add: randint_def draw_def const_draws_def)

theorem step_processes_supplied_known_ids_witness:
  "dom (rewards_of (fst (step grid_env [(0, 1), (7, 2)] (const_draws 4, 0)))) = {0}
   \<and> dom (info_map (fst (step grid_env [(0, 1), (7, 2)] (const_draws 4, 0)))) = {0}
   \<and> step grid_env [(0, 1)] (const_draws 4, 0)
       = step grid_env [(0, 1), (7, 2)] (const_draws 4, 0)
   \<and> map_of (intersections (fst (snd (step grid_env [(0, 1), (7, 2)] (const_draws 4, 0))))) 1
       = map_of (intersections (fst (snd (step grid_env [] (const_draws 4, 0))))) 1
   \<and> map_of (intersections (fst (snd (step grid_env [] (const_draws 4, 0))))) 0
       = Some \<lparr>position = (0, 0), queue_ns = 2, queue_ew = 2, current_phase = 0,
               time_in_phase = 0\<rparr>
   \<and> map_of (intersections (fst (snd (step grid_env [(0, 1), (7, 2)] (const_draws 4, 0))))) 0
       = Some \<lparr>position = (0, 0), queue_ns = 3, queue_ew = 0, current_phase = 1,
               time_in_phase = 1\<rparr>
   \<and> rewards_of (fst (step grid_env [(0, 1), (7, 2)] (const_draws 4, 0))) 0 = Some (- 3)
   \<and> info_map (fst (step grid_env [(0, 1), (7, 2)] (const_draws 4, 0))) 0
       = Some \<lparr>info_queue_ns = 3, info_queue_ew = 0, info_phase = 1, info_time_in_phase = 1\<rparr>"
proof -
  let ?s = "step grid_env [(0, 1), (7, 2)] (const_draws 4, 0)"
  let ?x = "\<lparr>position = (0, 0), queue_ns = 2, queue_ew = 2, current_phase = 0,
             time_in_phase = 0\<rparr>"
  have h: "?s = (fst ?s, fst (snd ?s), snd (snd ?s))" by simp
  note inst = step_processes_supplied_known_ids [OF h]
  have keys: "fst ` set (intersections grid_env) = {0, 1, 2, 3}"
    by (simp add: grid_env_def)
  have f: "filter (\<lambda>(i, a). i \<in> fst ` set (intersections grid_env)) [(0, 1), (7, 2)]
             = [(0, 1 :: int)]"
    unfolding keys by simp
  have n: "(1 :: int) \<notin> fst ` set [(0 :: int, 1 :: int), (7, 2)]" by simp
  from inst have basic:
    "dom (rewards_of (fst ?s)) = fst ` set [(0 :: int, 1 :: int), (7, 2)] \<inter> {0, 1, 2, 3}"
    "dom (info_map (fst ?s)) = fst ` set [(0 :: int, 1 :: int), (7, 2)] \<inter> {0, 1, 2, 3}"
    "step grid_env [(0, 1)] (const_draws 4, 0) = ?s"
    "\<forall>i. i \<notin> fst ` set [(0 :: int, 1 :: int), (7, 2)] \<longrightarrow>
       map_of (intersections (fst (snd ?s))) i
         = map_of (intersections (fst (snd (step grid_env [] (const_draws 4, 0))))) i"
    unfolding keys f using h by simp_all
  have x0: "map_of (intersections (fst (snd (step grid_env [] (const_draws 4, 0))))) 0 = Some ?x"
    by (simp add: step_grid_env_no_actions)
  have g0: "snd (snd (step grid_env [] (const_draws 4, 0))) = (const_draws 4, 20)"
    by (simp add: step_grid_env_no_actions)
  have sp: "[(0, 1), (7, 2)] = [] @ (0 :: int, 1 :: int) # [(7, 2)]" by simp
  have nl: "(0 :: int) \<notin> fst ` set [(7 :: int, 2 :: int)]" by simp
  note listed = inst [THEN conjunct2, THEN conjunct2, THEN conjunct2, THEN conjunct2,
      THEN conjunct2, THEN conjunct2, THEN conjunct2, rule_format, OF sp nl x0]
  from listed obtain r1 g1 r2 g2 x' where
    d1: "randint 0 3 (const_draws 4, 20) = (r1, g1)" and d2: "randint 0 3 g1 = (r2, g2)"
    and fin: "map_of (intersections (fst (snd ?s))) 0 = Some x'"
    and pos: "position x' = position ?x"
    and ph: "current_phase x' = (if (1 :: int) = 1 then 1 - current_phase ?x
                                 else if (1 :: int) = 2 then 0 else if (1 :: int) = 3 then 1
                                 else current_phase ?x)"
    and tm: "time_in_phase x' =
               (if (1 :: int) = 1 \<or> ((1 :: int) = 2 \<and> current_phase ?x \<noteq> 0)
                   \<or> ((1 :: int) = 3 \<and> current_phase ?x \<noteq> 1)
                then 0 else time_in_phase ?x) + 1"
    and ew: "current_phase x' \<noteq> 0 \<longrightarrow>
               queue_ew x' = max 0 (queue_ew ?x - min (3 + r1) (queue_ew ?x))
             \<and> queue_ns x' = min 30 (queue_ns ?x + r2)"
    and rw: "rewards_of (fst ?s) 0
               = Some (- (queue_ns x' + queue_ew x' + (if time_in_phase x' = 0 then 3 else 0)))"
    and nf: "info_map (fst ?s) 0
               = Some \<lparr>info_queue_ns = queue_ns x', info_queue_ew = queue_ew x',
                       info_phase = current_phase x',
                       info_time_in_phase = time_in_phase x'\<rparr>"
    unfolding g0 by blast
  from d1 have r1: "r1 = 1" "g1 = (const_draws 4, 21)" by (simp_all add: randint_0_3_const_4)
  from d2 have r2: "r2 = 1" by (simp add: r1 randint_0_3_const_4)
  have fields: "position x' = (0, 0)" "current_phase x' = 1" "time_in_phase x' = 1"
    using pos ph tm by simp_all
  with ew have q: "queue_ew x' = 0" "queue_ns x' = 3" by (simp_all add: r1 r2)
  have x': "x' = \<lparr>position = (0, 0), queue_ns = 3, queue_ew = 0, current_phase = 1,
                   time_in_phase = 1\<rparr>"
    using fields q by (cases x') simp
  from basic n x0 fin rw nf show ?thesis unfolding x' by auto
qed

section \<open>The reward of a step\<close>

text \<open>
  \<^verbatim>\<open>step\<close> increments \<^verbatim>\<open>time_in_phase\<close> before it computes the reward, so the test
  \<^verbatim>\<open>time_in_phase == 0\<close> of the switching penalty fails on every intersection whose timer
  was not negative: the reward is the negated sum of the two queues, also on a tick that
  changed the phase.
\<close>

lemma process_intersection_no_penalty:
  assumes "process_intersection a x g = (x', r, n, g')" and "0 \<le> time_in_phase x"
  shows "r = - (queue_ns x' + queue_ew x') \<and> 1 \<le> time_in_phase x'"
proof -
  obtain x2 g2 where tf: "traffic_flow (apply_action a x) g = (x2, g2)"
    by (cases "traffic_flow (apply_action a x) g")
  have "0 \<le> time_in_phase (apply_action a x)"
    using assms(2) by (simp add: apply_action_def)
  moreover have "time_in_phase x2 = time_in_phase (apply_action a x)"
    using tf by (auto simp: traffic_flow_def Let_def split: prod.splits if_splits)
  moreover have "x' = x2\<lparr>time_in_phase := time_in_phase x2 + 1\<rparr>" "r = reward_of x'"
    using assms(1) by (auto simp: process_intersection_def Let_def tf)
  ultimately show ?thesis by (simp add: reward_of_def Let_def)
qed

text \<open>
  Claim C1 says that the reward is \<open>-(queue_ns + queue_ew + 3)\<close> on a tick with a phase
  change. In the step below intersection 0 of a new environment receives action 1:
  its phase changes from 0 to 1, it ends with the queues 3 and 0, and its reward is
  \<open>-3\<close>, the negated queue total without the penalty.
\<close>

theorem step_switch_reward_without_penalty:
  "map_of (intersections grid_env) 0 = Some (new_intersection (0, 0))
   \<and> current_phase (new_intersection (0, 0)) = 0
   \<and> map_of (intersections (fst (snd (step grid_env [(0, 1)] (const_draws 4, 0))))) 0
       = Some \<lparr>position = (0, 0), queue_ns = 3, queue_ew = 0, current_phase = 1,
               time_in_phase = 1\<rparr>
   \<and> rewards_of (fst (step grid_env [(0, 1)] (const_draws 4, 0))) 0 = Some (- 3)"
  by (simp add: step_eval arrive_const_4)

end
